theory Spec2Isabelle
  imports Complex_Main
begin

section \<open>JavaScript numbers\<close>

text \<open>
  Every quantity of \<open>ChitFundApp.tsx\<close> is a JavaScript \<open>number\<close>. The embedding keeps the
  four kinds of value such a number can be: a finite value, the two infinities and NaN.
  A finite value is an exact rational: the operations below do not round and do not
  overflow, and there is one zero (no negative zero). Everything that JavaScript defines
  for the special values is written out: division by zero, \<open>0 * Infinity\<close>,
  \<open>Infinity - Infinity\<close>, comparisons with NaN (always false), \<open>Math.min\<close> with a NaN
  argument, \<open>Math.pow(x, 0) = 1\<close> for every \<open>x\<close>. Rounding enters in two places, where
  it changes a result: the decimal literals of the IRR solver are the doubles they
  denote, and the last section of definitions repeats the schedule simulator with every
  operation rounded to a double.
\<close>

datatype jsnum = Fin rat | PInf | NInf | NaN

fun jneg :: "jsnum \<Rightarrow> jsnum" where
  "jneg (Fin a) = Fin (- a)"
| "jneg PInf = NInf"
| "jneg NInf = PInf"
| "jneg NaN = NaN"

fun jadd :: "jsnum \<Rightarrow> jsnum \<Rightarrow> jsnum" where
  "jadd NaN y = NaN"
| "jadd x NaN = NaN"
| "jadd (Fin a) (Fin b) = Fin (a + b)"
| "jadd PInf NInf = NaN"
| "jadd NInf PInf = NaN"
| "jadd PInf y = PInf"
| "jadd NInf y = NInf"
| "jadd (Fin a) PInf = PInf"
| "jadd (Fin a) NInf = NInf"

definition jsub :: "jsnum \<Rightarrow> jsnum \<Rightarrow> jsnum" where
  "jsub x y = jadd x (jneg y)"

text \<open>The sign of an infinity times a finite factor; zero times infinity is NaN.\<close>

definition inf_signed :: "bool \<Rightarrow> rat \<Rightarrow> jsnum" where
  "inf_signed positive a =
     (if a = 0 then NaN else if (0 < a) = positive then PInf else NInf)"

fun jmul :: "jsnum \<Rightarrow> jsnum \<Rightarrow> jsnum" where
  "jmul NaN y = NaN"
| "jmul x NaN = NaN"
| "jmul (Fin a) (Fin b) = Fin (a * b)"
| "jmul (Fin a) PInf = inf_signed True a"
| "jmul (Fin a) NInf = inf_signed False a"
| "jmul PInf (Fin b) = inf_signed True b"
| "jmul NInf (Fin b) = inf_signed False b"
| "jmul PInf PInf = PInf"
| "jmul PInf NInf = NInf"
| "jmul NInf PInf = NInf"
| "jmul NInf NInf = PInf"

fun jdiv :: "jsnum \<Rightarrow> jsnum \<Rightarrow> jsnum" where
  "jdiv NaN y = NaN"
| "jdiv x NaN = NaN"
| "jdiv (Fin a) (Fin b) =
     (if b = 0 then (if a = 0 then NaN else if 0 < a then PInf else NInf)
      else Fin (a / b))"
| "jdiv (Fin a) PInf = Fin 0"
| "jdiv (Fin a) NInf = Fin 0"
| "jdiv PInf (Fin b) = (if 0 \<le> b then PInf else NInf)"
| "jdiv NInf (Fin b) = (if 0 \<le> b then NInf else PInf)"
| "jdiv PInf y = NaN"
| "jdiv NInf y = NaN"

text \<open>The comparisons \<open><\<close>, \<open>>\<close>, \<open><=\<close> and \<open>===\<close>; each is false when an operand is NaN.\<close>

fun jlt :: "jsnum \<Rightarrow> jsnum \<Rightarrow> bool" where
  "jlt NaN y = False"
| "jlt x NaN = False"
| "jlt (Fin a) (Fin b) = (a < b)"
| "jlt x NInf = False"
| "jlt PInf y = False"
| "jlt NInf y = True"
| "jlt (Fin a) PInf = True"

definition jgt :: "jsnum \<Rightarrow> jsnum \<Rightarrow> bool" where
  "jgt x y = jlt y x"

definition jeq :: "jsnum \<Rightarrow> jsnum \<Rightarrow> bool" where
  "jeq x y = (x \<noteq> NaN \<and> x = y)"

definition jle :: "jsnum \<Rightarrow> jsnum \<Rightarrow> bool" where
  "jle x y = (jlt x y \<or> jeq x y)"

fun jfloor :: "jsnum \<Rightarrow> jsnum" where
  "jfloor (Fin a) = Fin (of_int \<lfloor>a\<rfloor>)"
| "jfloor x = x"

text \<open>\<open>Math.round\<close> rounds to the nearest integer, a half towards plus infinity.\<close>

fun jround :: "jsnum \<Rightarrow> jsnum" where
  "jround (Fin a) = Fin (of_int \<lfloor>a + 1 / 2\<rfloor>)"
| "jround x = x"

fun jabs :: "jsnum \<Rightarrow> jsnum" where
  "jabs (Fin a) = Fin \<bar>a\<bar>"
| "jabs PInf = PInf"
| "jabs NInf = PInf"
| "jabs NaN = NaN"

definition jmin :: "jsnum \<Rightarrow> jsnum \<Rightarrow> jsnum" where
  "jmin x y = (if x = NaN \<or> y = NaN then NaN else if jlt x y then x else y)"

text \<open>\<open>Math.pow\<close> with the exponents the program uses: loop indices, so naturals.\<close>

fun jpow :: "jsnum \<Rightarrow> nat \<Rightarrow> jsnum" where
  "jpow x 0 = Fin 1"
| "jpow (Fin a) n = Fin (a ^ n)"
| "jpow PInf n = PInf"
| "jpow NInf n = (if even n then PInf else NInf)"
| "jpow NaN n = NaN"

subsection \<open>Doubles\<close>

text \<open>
  A finite JavaScript number is a double, and a decimal literal of the source denotes the
  double nearest to it. \<open>bits n\<close> is the number of binary digits of \<open>n\<close>;
  \<open>exponent_of q\<close>, for \<open>q > 0\<close>, is the \<open>k\<close> with \<open>2^k \<le> q < 2^(k+1)\<close>; \<open>dbl q\<close> is the
  multiple of \<open>2^(k - 52)\<close> nearest to \<open>q\<close>, the even one of two that are equally near:
  the double that the literal \<open>q\<close> denotes, and that a correctly rounded operation with
  exact result \<open>q\<close> returns (in the normal range: no overflow, no subnormal numbers).
\<close>

fun bits :: "nat \<Rightarrow> nat" where
  "bits n = (if n = 0 then 0 else Suc (bits (n div 2)))"

declare bits.simps [simp del]

definition exponent_of :: "rat \<Rightarrow> int" where
  "exponent_of q =
     (if 1 \<le> q then int (bits (nat \<lfloor>q\<rfloor>)) - 1
      else - int (bits (nat (\<lceil>1 / q\<rceil> - 1))))"

definition two_to :: "int \<Rightarrow> rat" where
  "two_to k = (if 0 \<le> k then 2 ^ nat k else 1 / 2 ^ nat (- k))"

definition round_even :: "rat \<Rightarrow> int" where
  "round_even m =
     (let f = \<lfloor>m\<rfloor>; d = m - of_int f
      in if d < 1 / 2 then f else if 1 / 2 < d then f + 1
         else if even f then f else f + 1)"

definition dbl :: "rat \<Rightarrow> rat" where
  "dbl q =
     (if q = 0 then 0
      else
        let ulp = two_to (exponent_of \<bar>q\<bar> - 52);
            n = round_even (\<bar>q\<bar> / ulp)
        in if q < 0 then - (of_int n * ulp) else of_int n * ulp)"

section \<open>The IRR solver\<close>

text \<open>
  \<open>calculateIRR\<close>: Newton-Raphson from the rate 0.01, then bisection over
  \<open>[-0.99, 10]\<close>. Both \<open>for\<close> loops run at most \<open>maxIterations\<close> times, so each is a
  recursion on the number of iterations left. \<open>None\<close> is the \<open>null\<close> of the source.

  The decimal literals of the function stand for doubles: \<open>initialRate\<close> is the double
  \<open>0.01\<close>; \<open>lowerBound\<close> is \<open>-0.99\<close>, the negation of the double \<open>0.99\<close>, which lies
  about \<open>8.9e-18\<close> above \<open>-99/100\<close>; the default tolerance is the double \<open>1e-7\<close>. The
  other constants, \<open>-0.5\<close>, \<open>1\<close> and \<open>10\<close>, are doubles as written. The arithmetic on
  rates and net present values is exact.
\<close>

definition initialRate :: jsnum where
  "initialRate = Fin (dbl (1 / 100))"

definition lowerBound :: jsnum where
  "lowerBound = Fin (- dbl (99 / 100))"

definition npv_at :: "jsnum list \<Rightarrow> jsnum \<Rightarrow> jsnum" where
  "npv_at cashFlows rate =
     foldl (\<lambda>npv t. jadd npv (jdiv (cashFlows ! t) (jpow (jadd (Fin 1) rate) t)))
       (Fin 0) [0..<length cashFlows]"

definition dnpv_at :: "jsnum list \<Rightarrow> jsnum \<Rightarrow> jsnum" where
  "dnpv_at cashFlows rate =
     foldl (\<lambda>dnpv t. jsub dnpv
              (jdiv (jmul (Fin (of_nat t)) (cashFlows ! t)) (jpow (jadd (Fin 1) rate) (t + 1))))
       (Fin 0) [0..<length cashFlows]"

text \<open>
  The Newton-Raphson loop. The result is \<open>Some rate\<close> when the loop returns from the
  function, and \<open>None\<close> when it is left by \<open>break\<close> or by running out of iterations.
\<close>

fun newton :: "jsnum list \<Rightarrow> jsnum \<Rightarrow> nat \<Rightarrow> jsnum \<Rightarrow> jsnum option" where
  "newton cashFlows tolerance 0 rate = None"
| "newton cashFlows tolerance (Suc k) rate =
     (let npv = npv_at cashFlows rate;
          dnpv = dnpv_at cashFlows rate
      in if jlt (jabs npv) tolerance then Some rate
         else if jlt (jabs dnpv) tolerance then None
         else
           let newRate = jsub rate (jdiv npv dnpv)
           in newton cashFlows tolerance k
                (if jlt newRate lowerBound then Fin (- (1 / 2))
                 else if jgt newRate (Fin 10) then Fin 1
                 else newRate))"

fun bisection :: "jsnum list \<Rightarrow> jsnum \<Rightarrow> nat \<Rightarrow> jsnum \<Rightarrow> jsnum \<Rightarrow> jsnum option" where
  "bisection cashFlows tolerance 0 low high = None"
| "bisection cashFlows tolerance (Suc k) low high =
     (let mid = jdiv (jadd low high) (Fin 2);
          npv = npv_at cashFlows mid
      in if jlt (jabs npv) tolerance then Some mid
         else
           let npvLow = npv_at cashFlows low
           in if jgt (jmul npvLow npv) (Fin 0)
              then bisection cashFlows tolerance k mid high
              else bisection cashFlows tolerance k low mid)"

definition calculateIRR :: "jsnum list \<Rightarrow> nat \<Rightarrow> jsnum \<Rightarrow> jsnum option" where
  "calculateIRR cashFlows maxIterations tolerance =
     (case newton cashFlows tolerance maxIterations initialRate of
        Some rate \<Rightarrow> Some rate
      | None \<Rightarrow> bisection cashFlows tolerance maxIterations lowerBound (Fin 10))"

text \<open>The default arguments \<open>maxIterations = 100\<close> and \<open>tolerance = 1e-7\<close>.\<close>

definition defaultTolerance :: jsnum where
  "defaultTolerance = Fin (dbl (1 / 10000000))"

definition calculateIRR_default :: "jsnum list \<Rightarrow> jsnum option" where
  "calculateIRR_default cashFlows = calculateIRR cashFlows 100 defaultTolerance"


section \<open>The schedule simulator\<close>

text \<open>
  The inputs of \<open>calculateChitDetails\<close>: the fields of \<open>calcInputs\<close> that the function
  reads, and the \<open>loanUtilization\<close> state, passed as a second argument. The form fills
  them from \<open>parseInt(...) || 0\<close> and \<open>parseFloat(...) || 0\<close>, so they are finite
  numbers and \<open>totalMembers\<close> is an integer. \<open>commissionType\<close> is the string
  \<open>'monthly'\<close> or \<open>'onetime'\<close>.
\<close>

datatype commission_type = Monthly | Onetime

record calcInputs =
  totalMembers :: int
  monthlyContribution :: rat
  firstWithdrawal :: rat
  monthlyIncrement :: rat
  commissionType :: commission_type
  commissionRate :: rat
  oneTimeCommission :: rat
  loanInterestRate :: rat

text \<open>An entry of \<open>withdrawalSchedule\<close> and an entry of \<open>loanDetails\<close>.\<close>

record schedule_entry =
  month :: nat
  withdrawalAmount :: jsnum
  contributionPerMember :: jsnum
  newContributions :: jsnum
  carryOverFromPrevious :: jsnum
  availablePool :: jsnum
  actualWithdrawals :: jsnum
  totalWithdrawn :: jsnum
  remainingPool :: jsnum
  remainingMembersAfter :: jsnum
  isLastMonth :: bool

record loan_entry =
  loanMonth :: nat
  availableForLoan :: jsnum
  loanAmount :: jsnum
  interestRate :: jsnum
  interestEarned :: jsnum
  repaymentDue :: jsnum

record member_return =
  member :: nat
  withdrawalMonth :: nat
  totalContribution :: jsnum
  withdrawal :: jsnum
  netReturn :: jsnum
  returnPercent :: jsnum
  monthlyIRR :: "jsnum option"
  annualizedIRR :: "jsnum option"

record chit_details =
  duration :: nat
  totalPool :: jsnum
  commissionPerMonth :: jsnum
  totalCommission :: jsnum
  netPoolPerMonth :: jsnum
  withdrawalSchedule :: "schedule_entry list"
  totalMembersServed :: jsnum
  finalCarryOver :: jsnum
  loanDetails :: "loan_entry list"
  totalLoanAmount :: jsnum
  totalInterestEarned :: jsnum
  memberReturns :: "member_return list"

subsection \<open>Values computed before the loop\<close>

definition pool_of :: "calcInputs \<Rightarrow> jsnum" where
  "pool_of c = jmul (Fin (of_int (totalMembers c))) (Fin (monthlyContribution c))"

text \<open>
  \<open>commission_of\<close> is the unrounded \<open>commissionPerMonth\<close> and \<open>total_commission_of\<close> the
  unrounded \<open>totalCommission\<close>; the local \<open>duration\<close> they use is \<open>totalMembers\<close>.
\<close>

definition commission_of :: "calcInputs \<Rightarrow> jsnum" where
  "commission_of c =
     (case commissionType c of
        Monthly \<Rightarrow> jdiv (jmul (pool_of c) (Fin (commissionRate c))) (Fin 100)
      | Onetime \<Rightarrow> jdiv (Fin (oneTimeCommission c)) (Fin (of_int (totalMembers c))))"

definition total_commission_of :: "calcInputs \<Rightarrow> jsnum" where
  "total_commission_of c =
     (case commissionType c of
        Monthly \<Rightarrow> jmul (commission_of c) (Fin (of_int (totalMembers c)))
      | Onetime \<Rightarrow> Fin (oneTimeCommission c))"

definition net_pool_of :: "calcInputs \<Rightarrow> jsnum" where
  "net_pool_of c = jsub (pool_of c) (commission_of c)"

subsection \<open>One iteration of the main loop\<close>

text \<open>
  The variables that live across iterations. \<open>sched\<close> and \<open>loans\<close> are the arrays
  \<open>withdrawalSchedule\<close> and \<open>loanDetails\<close> under construction, \<open>loanTotal\<close> and
  \<open>interestTotal\<close> the running \<open>totalLoanAmount\<close> and \<open>totalInterestEarned\<close>.
\<close>

record loop_state =
  remainingMembers :: jsnum
  carryOverPool :: jsnum
  loanRepaymentDue :: jsnum
  loanTotal :: jsnum
  interestTotal :: jsnum
  sched :: "schedule_entry list"
  loans :: "loan_entry list"

text \<open>
  The unrounded values that one iteration computes, in the order of the source:
  the baseline pool, the settlement test with its two recomputations, the number of
  withdrawals, and the loan.
\<close>

record period =
  p_withdrawalAmount :: jsnum
  p_effectiveCarryOver :: jsnum
  p_currentMonthContribution :: jsnum
  p_contributionPerMember :: jsnum
  p_availablePool :: jsnum
  p_isLastMonth :: bool
  p_actualWithdrawals :: jsnum
  p_totalWithdrawn :: jsnum
  p_remainingPool :: jsnum
  p_lends :: bool
  p_loanAmount :: jsnum
  p_interestEarned :: jsnum
  p_nextMonthRepayment :: jsnum

definition period_of :: "calcInputs \<Rightarrow> rat \<Rightarrow> nat \<Rightarrow> loop_state \<Rightarrow> period" where
  "period_of c loanUtilization i s =
     (let withdrawalAmount = jadd (Fin (firstWithdrawal c))
                               (jmul (Fin (monthlyIncrement c)) (Fin (of_nat i)));
          effectiveCarryOver = jadd (carryOverPool s) (loanRepaymentDue s);
          totalRequiredForRemainingMembers = jmul (remainingMembers s) withdrawalAmount;
          isLastMonth = jlt totalRequiredForRemainingMembers
                          (jadd (net_pool_of c) effectiveCarryOver);
          requiredNet = jsub totalRequiredForRemainingMembers effectiveCarryOver;
          grossRequired = jadd requiredNet (commission_of c);
          contributionPerMember =
            (if isLastMonth
             then (if jle requiredNet (Fin 0) then Fin 0
                   else jdiv grossRequired (Fin (of_int (totalMembers c))))
             else Fin (monthlyContribution c));
          currentMonthContribution =
            (if isLastMonth
             then (if jle requiredNet (Fin 0) then Fin 0
                   else jsub (jmul contributionPerMember (Fin (of_int (totalMembers c))))
                          (commission_of c))
             else net_pool_of c);
          availablePool =
            (if isLastMonth
             then (if jle requiredNet (Fin 0) then effectiveCarryOver
                   else jadd currentMonthContribution effectiveCarryOver)
             else jadd (net_pool_of c) effectiveCarryOver);
          maxWithdrawalsBasedOnPool = jfloor (jdiv availablePool withdrawalAmount);
          actualWithdrawals = jmin maxWithdrawalsBasedOnPool (remainingMembers s);
          totalWithdrawn = jmul withdrawalAmount actualWithdrawals;
          remainingPool = jsub availablePool totalWithdrawn;
          lends = (\<not> isLastMonth \<and> jgt remainingPool (Fin 0));
          loanAmount = (if lends then jdiv (jmul remainingPool (Fin loanUtilization)) (Fin 100)
                        else Fin 0);
          interestEarned = (if lends
                            then jdiv (jmul loanAmount (Fin (loanInterestRate c))) (Fin 100)
                            else Fin 0);
          nextMonthRepayment = (if lends then jadd loanAmount interestEarned else Fin 0)
      in \<lparr> p_withdrawalAmount = withdrawalAmount,
           p_effectiveCarryOver = effectiveCarryOver,
           p_currentMonthContribution = currentMonthContribution,
           p_contributionPerMember = contributionPerMember,
           p_availablePool = availablePool,
           p_isLastMonth = isLastMonth,
           p_actualWithdrawals = actualWithdrawals,
           p_totalWithdrawn = totalWithdrawn,
           p_remainingPool = remainingPool,
           p_lends = lends,
           p_loanAmount = loanAmount,
           p_interestEarned = interestEarned,
           p_nextMonthRepayment = nextMonthRepayment \<rparr>)"

text \<open>The two \<open>push\<close> calls: the reported fields are rounded with \<open>Math.round\<close>.\<close>

definition loan_entry_of :: "calcInputs \<Rightarrow> nat \<Rightarrow> period \<Rightarrow> loan_entry" where
  "loan_entry_of c i v =
     \<lparr> loanMonth = i + 1,
       availableForLoan = jround (p_remainingPool v),
       loanAmount = jround (p_loanAmount v),
       interestRate = Fin (loanInterestRate c),
       interestEarned = jround (p_interestEarned v),
       repaymentDue = jround (p_nextMonthRepayment v) \<rparr>"

definition schedule_entry_of :: "nat \<Rightarrow> period \<Rightarrow> jsnum \<Rightarrow> schedule_entry" where
  "schedule_entry_of i v remainingAfter =
     \<lparr> month = i + 1,
       withdrawalAmount = jround (p_withdrawalAmount v),
       contributionPerMember = jround (p_contributionPerMember v),
       newContributions = jround (p_currentMonthContribution v),
       carryOverFromPrevious = jround (p_effectiveCarryOver v),
       availablePool = jround (p_availablePool v),
       actualWithdrawals = p_actualWithdrawals v,
       totalWithdrawn = jround (p_totalWithdrawn v),
       remainingPool = jround (p_remainingPool v),
       remainingMembersAfter = remainingAfter,
       isLastMonth = p_isLastMonth v \<rparr>"

definition loop_body :: "calcInputs \<Rightarrow> rat \<Rightarrow> nat \<Rightarrow> loop_state \<Rightarrow> loop_state" where
  "loop_body c loanUtilization i s =
     (let v = period_of c loanUtilization i s;
          remainingAfter = jsub (remainingMembers s) (p_actualWithdrawals v)
      in \<lparr> remainingMembers = remainingAfter,
           carryOverPool = jsub (p_remainingPool v) (p_loanAmount v),
           loanRepaymentDue = p_nextMonthRepayment v,
           loanTotal = (if p_lends v then jadd (loanTotal s) (p_loanAmount v)
                        else loanTotal s),
           interestTotal = (if p_lends v then jadd (interestTotal s) (p_interestEarned v)
                            else interestTotal s),
           sched = sched s @ [schedule_entry_of i v remainingAfter],
           loans = (if p_lends v then loans s @ [loan_entry_of c i v] else loans s) \<rparr>)"

subsection \<open>The main loop\<close>

text \<open>
  \<open>for (let i = 0; i < duration && remainingMembers > 0; i++) { ...;
  if (remainingMembers === 0) break; }\<close> with \<open>duration = totalMembers\<close>.
\<close>

function chit_loop :: "calcInputs \<Rightarrow> rat \<Rightarrow> nat \<Rightarrow> loop_state \<Rightarrow> loop_state" where
  "chit_loop c loanUtilization i s =
     (if int i < totalMembers c \<and> jgt (remainingMembers s) (Fin 0)
      then (let s' = loop_body c loanUtilization i s
            in if jeq (remainingMembers s') (Fin 0) then s'
               else chit_loop c loanUtilization (i + 1) s')
      else s)"
  by pat_completeness auto
termination
  by (relation "measure (\<lambda>(c, u, i, s). nat (totalMembers c) - i)") auto

declare chit_loop.simps [simp del]

definition initial_state :: "calcInputs \<Rightarrow> loop_state" where
  "initial_state c =
     \<lparr> remainingMembers = Fin (of_int (totalMembers c)),
       carryOverPool = Fin 0,
       loanRepaymentDue = Fin 0,
       loanTotal = Fin 0,
       interestTotal = Fin 0,
       sched = [],
       loans = [] \<rparr>"


section \<open>The return analyzer\<close>

text \<open>
  The second half of \<open>calculateChitDetails\<close> reads the finished schedule (its rounded
  fields). Two things can keep it from returning. The inner loop
  \<open>for (let i = 0; i < schedule.actualWithdrawals; i++)\<close> never ends when the bound is
  \<open>Infinity\<close>, and the final object reads
  \<open>withdrawalSchedule[withdrawalSchedule.length - 1].remainingMembersAfter\<close>, a
  \<open>TypeError\<close> on an empty schedule. Both are values of the model.
\<close>

datatype failure = TypeError | Diverges

definition totalContributionForAllMembers :: "schedule_entry list \<Rightarrow> jsnum" where
  "totalContributionForAllMembers ws =
     foldl (\<lambda>sum schedule. jadd sum (contributionPerMember schedule)) (Fin 0) ws"

definition cashFlows_of :: "schedule_entry list \<Rightarrow> schedule_entry \<Rightarrow> jsnum list" where
  "cashFlows_of ws schedule =
     map (\<lambda>m. let contribution = jneg (contributionPerMember (ws ! m))
              in if m + 1 = month schedule
                 then jadd (withdrawalAmount schedule) contribution
                 else contribution)
       [0..<length ws]"

definition member_return_of :: "schedule_entry list \<Rightarrow> schedule_entry \<Rightarrow> nat \<Rightarrow> member_return"
  where
  "member_return_of ws schedule memberNumber =
     (let total = totalContributionForAllMembers ws;
          netReturn = jsub (withdrawalAmount schedule) total;
          returnPercent = jmul (jdiv netReturn total) (Fin 100);
          monthlyIRR = calculateIRR_default (cashFlows_of ws schedule);
          annualizedIRR =
            (case monthlyIRR of
               Some r \<Rightarrow> Some (jmul (jsub (jpow (jadd (Fin 1) r) 12) (Fin 1)) (Fin 100))
             | None \<Rightarrow> None)
      in \<lparr> member = memberNumber,
           withdrawalMonth = month schedule,
           totalContribution = jround total,
           withdrawal = withdrawalAmount schedule,
           netReturn = jround netReturn,
           returnPercent = returnPercent,
           monthlyIRR = (case monthlyIRR of Some r \<Rightarrow> Some (jmul r (Fin 100)) | None \<Rightarrow> None),
           annualizedIRR = annualizedIRR \<rparr>)"

text \<open>
  The inner loop for a finite bound \<open>q\<close>: it pushes one entry per \<open>i < q\<close> and counts
  \<open>memberNumber\<close> up. It returns the next member number and the extended array.
\<close>

function member_loop ::
  "(nat \<Rightarrow> member_return) \<Rightarrow> rat \<Rightarrow> nat \<Rightarrow> nat \<Rightarrow> member_return list
     \<Rightarrow> nat \<times> member_return list" where
  "member_loop mk q i memberNumber acc =
     (if of_nat i < q
      then member_loop mk q (i + 1) (memberNumber + 1) (acc @ [mk memberNumber])
      else (memberNumber, acc))"
  by pat_completeness auto
termination
proof (relation "measure (\<lambda>(mk, q, i, n, acc). nat \<lceil>q\<rceil> - i)")
  show "wf (measure (\<lambda>(mk, q, i, n, acc). nat \<lceil>q\<rceil> - i))"
    by simp
next
  fix mk :: "nat \<Rightarrow> member_return" and q :: rat and i memberNumber :: nat
    and acc :: "member_return list"
  assume lt: "of_nat i < q"
  have "q \<le> of_int \<lceil>q\<rceil>"
    by (rule le_of_int_ceiling)
  with lt have "(of_nat i :: rat) < of_int \<lceil>q\<rceil>"
    by (rule less_le_trans)
  then have "(of_int (int i) :: rat) < of_int \<lceil>q\<rceil>"
    by (simp only: of_int_of_nat_eq)
  then have "int i < \<lceil>q\<rceil>"
    by (simp only: of_int_less_iff)
  then show "((mk, q, i + 1, memberNumber + 1, acc @ [mk memberNumber]),
              (mk, q, i, memberNumber, acc))
             \<in> measure (\<lambda>(mk, q, i, n, acc). nat \<lceil>q\<rceil> - i)"
    by simp
qed

declare member_loop.simps [simp del]

text \<open>The outer loop \<open>for (const schedule of withdrawalSchedule)\<close>.\<close>

fun member_returns ::
  "schedule_entry list \<Rightarrow> schedule_entry list \<Rightarrow> nat \<Rightarrow> member_return list
     \<Rightarrow> failure + member_return list" where
  "member_returns ws [] memberNumber acc = Inr acc"
| "member_returns ws (schedule # rest) memberNumber acc =
     (case actualWithdrawals schedule of
        PInf \<Rightarrow> Inl Diverges
      | Fin q \<Rightarrow>
          (case member_loop (member_return_of ws schedule) q 0 memberNumber acc of
             (memberNumber', acc') \<Rightarrow> member_returns ws rest memberNumber' acc')
      | NInf \<Rightarrow> member_returns ws rest memberNumber acc
      | NaN \<Rightarrow> member_returns ws rest memberNumber acc)"

section \<open>calculateChitDetails\<close>

definition empty_details :: chit_details where
  "empty_details =
     \<lparr> duration = 0,
       totalPool = Fin 0,
       commissionPerMonth = Fin 0,
       totalCommission = Fin 0,
       netPoolPerMonth = Fin 0,
       withdrawalSchedule = [],
       totalMembersServed = Fin 0,
       finalCarryOver = Fin 0,
       loanDetails = [],
       totalLoanAmount = Fin 0,
       totalInterestEarned = Fin 0,
       memberReturns = [] \<rparr>"

definition details_of ::
  "calcInputs \<Rightarrow> loop_state \<Rightarrow> member_return list \<Rightarrow> chit_details" where
  "details_of c s ms =
     \<lparr> duration = length (sched s),
       totalPool = pool_of c,
       commissionPerMonth = jround (commission_of c),
       totalCommission = jround (total_commission_of c),
       netPoolPerMonth = net_pool_of c,
       withdrawalSchedule = sched s,
       totalMembersServed =
         jsub (Fin (of_int (totalMembers c))) (remainingMembersAfter (last (sched s))),
       finalCarryOver = remainingPool (last (sched s)),
       loanDetails = loans s,
       totalLoanAmount = jround (loanTotal s),
       totalInterestEarned = jround (interestTotal s),
       memberReturns = ms \<rparr>"

definition calculateChitDetails :: "calcInputs \<Rightarrow> rat \<Rightarrow> failure + chit_details" where
  "calculateChitDetails c loanUtilization =
     (if totalMembers c \<le> 0 then Inr empty_details
      else
        let s = chit_loop c loanUtilization 0 (initial_state c)
        in case member_returns (sched s) (sched s) 1 [] of
             Inl e \<Rightarrow> Inl e
           | Inr ms \<Rightarrow>
               if sched s = [] then Inl TypeError
               else Inr (details_of c s ms))"


section \<open>Predicates of the statements\<close>

text \<open>A number is well defined when it is finite: neither an infinity nor NaN.\<close>

fun is_fin :: "jsnum \<Rightarrow> bool" where
  "is_fin (Fin a) = True"
| "is_fin x = False"

text \<open>
  What holds of the loop variables in every run: either the three numbers that feed the
  next period are finite, or the carried pool is NaN (and then every later period
  computes NaN withdrawals).
\<close>

definition state_ok :: "loop_state \<Rightarrow> bool" where
  "state_ok s =
     ((is_fin (remainingMembers s) \<and> is_fin (carryOverPool s) \<and> is_fin (loanRepaymentDue s))
      \<or> carryOverPool s = NaN)"

section \<open>Runs and their periods\<close>

text \<open>
  \<open>run\<close> is the main loop started as the function starts it. \<open>state_after c u n\<close> is the
  state after \<open>n\<close> iterations of the loop body, whether or not the loop goes that far;
  \<open>run_state_after\<close> below shows that a run is \<open>state_after\<close> at the number of entries
  it has pushed. \<open>defaultInputs\<close> are the initial values of the \<open>calcInputs\<close> state.
\<close>

definition run :: "calcInputs \<Rightarrow> rat \<Rightarrow> loop_state" where
  "run c u = chit_loop c u 0 (initial_state c)"

fun state_after :: "calcInputs \<Rightarrow> rat \<Rightarrow> nat \<Rightarrow> loop_state" where
  "state_after c u 0 = initial_state c"
| "state_after c u (Suc n) = loop_body c u n (state_after c u n)"


text \<open>
  \<open>withdrawal_at c i\<close> is the value of \<open>firstWithdrawal + monthlyIncrement * i\<close>, the
  withdrawal amount of the period with index \<open>i\<close>. \<open>withdrawals_sum\<close> adds the
  \<open>actualWithdrawals\<close> of a schedule, with the addition of JavaScript.
\<close>

definition withdrawal_at :: "calcInputs \<Rightarrow> nat \<Rightarrow> rat" where
  "withdrawal_at c i = firstWithdrawal c + monthlyIncrement c * of_nat i"

definition withdrawals_sum :: "schedule_entry list \<Rightarrow> jsnum" where
  "withdrawals_sum ws = foldl jadd (Fin 0) (map actualWithdrawals ws)"

text \<open>
  The rates at which the solver evaluates the net present value: the Newton-Raphson loop
  clamps every new rate that compares below \<open>-0.99\<close> or above \<open>10\<close>, so a rate is a
  finite value of \<open>[-0.99, 10]\<close> or NaN, and bisection stays inside its bracket. The
  double \<open>-0.99\<close> is not below \<open>-99/100\<close>, which is the bound that \<open>rate_ok\<close> keeps.
\<close>

fun rate_ok :: "jsnum \<Rightarrow> bool" where
  "rate_ok (Fin q) = (- (99 / 100) \<le> q \<and> q \<le> 10)"
| "rate_ok NaN = True"
| "rate_ok x = False"

section \<open>The schedule in double precision\<close>

text \<open>
  The embedding of the schedule simulator above computes with exact rationals. This
  section repeats one period and the main loop with every arithmetic operation rounded
  to the nearest double, ties to even, as IEEE 754 prescribes for \<open>+\<close>, \<open>-\<close>, \<open>*\<close> and
  \<open>/\<close>; it covers finite results in the normal range. It shows, at a concrete input, the
  rounding slip of the settlement recomputation, which exact arithmetic cannot show.
\<close>

text \<open>The four operations on doubles: the exact result, rounded.\<close>

fun jdbl :: "jsnum \<Rightarrow> jsnum" where
  "jdbl (Fin a) = Fin (dbl a)"
| "jdbl x = x"

definition dadd :: "jsnum \<Rightarrow> jsnum \<Rightarrow> jsnum" where
  "dadd x y = jdbl (jadd x y)"

definition dsub :: "jsnum \<Rightarrow> jsnum \<Rightarrow> jsnum" where
  "dsub x y = jdbl (jsub x y)"

definition dmul :: "jsnum \<Rightarrow> jsnum \<Rightarrow> jsnum" where
  "dmul x y = jdbl (jmul x y)"

definition ddiv :: "jsnum \<Rightarrow> jsnum \<Rightarrow> jsnum" where
  "ddiv x y = jdbl (jdiv x y)"

text \<open>
  The values computed before the loop and the period of \<open>period_of\<close>, with the rounded
  operations. Comparisons, \<open>Math.floor\<close> and \<open>Math.min\<close> do not round.
\<close>

definition pool_of_double :: "calcInputs \<Rightarrow> jsnum" where
  "pool_of_double c = dmul (Fin (of_int (totalMembers c))) (Fin (monthlyContribution c))"

definition commission_of_double :: "calcInputs \<Rightarrow> jsnum" where
  "commission_of_double c =
     (case commissionType c of
        Monthly \<Rightarrow> ddiv (dmul (pool_of_double c) (Fin (commissionRate c))) (Fin 100)
      | Onetime \<Rightarrow> ddiv (Fin (oneTimeCommission c)) (Fin (of_int (totalMembers c))))"

definition net_pool_of_double :: "calcInputs \<Rightarrow> jsnum" where
  "net_pool_of_double c = dsub (pool_of_double c) (commission_of_double c)"

definition period_of_double :: "calcInputs \<Rightarrow> rat \<Rightarrow> nat \<Rightarrow> loop_state \<Rightarrow> period" where
  "period_of_double c loanUtilization i s =
     (let withdrawalAmount = dadd (Fin (firstWithdrawal c))
                               (dmul (Fin (monthlyIncrement c)) (Fin (of_nat i)));
          effectiveCarryOver = dadd (carryOverPool s) (loanRepaymentDue s);
          totalRequiredForRemainingMembers = dmul (remainingMembers s) withdrawalAmount;
          isLastMonth = jlt totalRequiredForRemainingMembers
                          (dadd (net_pool_of_double c) effectiveCarryOver);
          requiredNet = dsub totalRequiredForRemainingMembers effectiveCarryOver;
          grossRequired = dadd requiredNet (commission_of_double c);
          contributionPerMember =
            (if isLastMonth
             then (if jle requiredNet (Fin 0) then Fin 0
                   else ddiv grossRequired (Fin (of_int (totalMembers c))))
             else Fin (monthlyContribution c));
          currentMonthContribution =
            (if isLastMonth
             then (if jle requiredNet (Fin 0) then Fin 0
                   else dsub (dmul contributionPerMember (Fin (of_int (totalMembers c))))
                          (commission_of_double c))
             else net_pool_of_double c);
          availablePool =
            (if isLastMonth
             then (if jle requiredNet (Fin 0) then effectiveCarryOver
                   else dadd currentMonthContribution effectiveCarryOver)
             else dadd (net_pool_of_double c) effectiveCarryOver);
          maxWithdrawalsBasedOnPool = jfloor (ddiv availablePool withdrawalAmount);
          actualWithdrawals = jmin maxWithdrawalsBasedOnPool (remainingMembers s);
          totalWithdrawn = dmul withdrawalAmount actualWithdrawals;
          remainingPool = dsub availablePool totalWithdrawn;
          lends = (\<not> isLastMonth \<and> jgt remainingPool (Fin 0));
          loanAmount = (if lends then ddiv (dmul remainingPool (Fin loanUtilization)) (Fin 100)
                        else Fin 0);
          interestEarned = (if lends
                            then ddiv (dmul loanAmount (Fin (loanInterestRate c))) (Fin 100)
                            else Fin 0);
          nextMonthRepayment = (if lends then dadd loanAmount interestEarned else Fin 0)
      in \<lparr> p_withdrawalAmount = withdrawalAmount,
           p_effectiveCarryOver = effectiveCarryOver,
           p_currentMonthContribution = currentMonthContribution,
           p_contributionPerMember = contributionPerMember,
           p_availablePool = availablePool,
           p_isLastMonth = isLastMonth,
           p_actualWithdrawals = actualWithdrawals,
           p_totalWithdrawn = totalWithdrawn,
           p_remainingPool = remainingPool,
           p_lends = lends,
           p_loanAmount = loanAmount,
           p_interestEarned = interestEarned,
           p_nextMonthRepayment = nextMonthRepayment \<rparr>)"


text \<open>
  The loop body and the main loop on \<open>period_of_double\<close>. The state is updated with
  rounded operations; \<open>Math.round\<close> returns an integer, which is a double, so the pushed
  entries are built as before.
\<close>

definition loop_body_double :: "calcInputs \<Rightarrow> rat \<Rightarrow> nat \<Rightarrow> loop_state \<Rightarrow> loop_state" where
  "loop_body_double c loanUtilization i s =
     (let v = period_of_double c loanUtilization i s;
          remainingAfter = dsub (remainingMembers s) (p_actualWithdrawals v)
      in \<lparr> remainingMembers = remainingAfter,
           carryOverPool = dsub (p_remainingPool v) (p_loanAmount v),
           loanRepaymentDue = p_nextMonthRepayment v,
           loanTotal = (if p_lends v then dadd (loanTotal s) (p_loanAmount v)
                        else loanTotal s),
           interestTotal = (if p_lends v then dadd (interestTotal s) (p_interestEarned v)
                            else interestTotal s),
           sched = sched s @ [schedule_entry_of i v remainingAfter],
           loans = (if p_lends v then loans s @ [loan_entry_of c i v] else loans s) \<rparr>)"

function chit_loop_double :: "calcInputs \<Rightarrow> rat \<Rightarrow> nat \<Rightarrow> loop_state \<Rightarrow> loop_state" where
  "chit_loop_double c loanUtilization i s =
     (if int i < totalMembers c \<and> jgt (remainingMembers s) (Fin 0)
      then (let s' = loop_body_double c loanUtilization i s
            in if jeq (remainingMembers s') (Fin 0) then s'
               else chit_loop_double c loanUtilization (i + 1) s')
      else s)"
  by pat_completeness auto
termination
  by (relation "measure (\<lambda>(c, u, i, s). nat (totalMembers c) - i)") auto

declare chit_loop_double.simps [simp del]

text \<open>
  \<open>run_double\<close> is the loop started as \<open>calculateChitDetails\<close> starts it; for
  \<open>totalMembers > 0\<close> its \<open>sched\<close> is the array that the function returns as
  \<open>withdrawalSchedule\<close>.
\<close>

definition run_double :: "calcInputs \<Rightarrow> rat \<Rightarrow> loop_state" where
  "run_double c u = chit_loop_double c u 0 (initial_state c)"

text \<open>Inputs for which the settlement month of the program leaves one member unpaid.\<close>

definition slipInputs :: calcInputs where
  "slipInputs =
     \<lparr> totalMembers = 24, monthlyContribution = 10102, firstWithdrawal = 4996,
       monthlyIncrement = 3377, commissionType = Monthly, commissionRate = 1,
       oneTimeCommission = 0, loanInterestRate = 1 \<rparr>"

section \<open>Proofs\<close>



subsection \<open>Arithmetic on finite values\<close>

lemma jsub_Fin [simp]: "jsub (Fin a) (Fin b) = Fin (a - b)"
  by (simp add: jsub_def)

lemma jgt_Fin [simp]: "jgt (Fin a) (Fin b) = (b < a)"
  by (simp add: jgt_def)

lemma jeq_Fin [simp]: "jeq (Fin a) (Fin b) = (a = b)"
  by (simp add: jeq_def)

lemma jle_Fin [simp]: "jle (Fin a) (Fin b) = (a \<le> b)"
  by (auto simp: jle_def)

lemma jmin_Fin [simp]: "jmin (Fin a) (Fin b) = Fin (min a b)"
  by (simp add: jmin_def min_def)

lemma rat_floor_numeral [simp]:
  "\<lfloor>(numeral a :: rat) / numeral b\<rfloor> = numeral a div numeral b"
  by (metis floor_divide_of_int_eq of_int_numeral)

lemma rat_floor_one_numeral [simp]: "\<lfloor>(1 :: rat) / numeral b\<rfloor> = 1 div numeral b"
  by (metis floor_divide_of_int_eq of_int_numeral of_int_1)

lemma rat_floor_neg_numeral [simp]:
  "\<lfloor>- (numeral a :: rat) / numeral b\<rfloor> = - numeral a div numeral b"
  by (metis floor_divide_of_int_eq of_int_numeral of_int_minus)

lemma rat_ceiling_numeral [simp]:
  "\<lceil>(numeral a :: rat) / numeral b\<rceil> = - (- numeral a div numeral b)"
  by (metis ceiling_divide_eq_div of_int_numeral)

lemma jround_of_int [simp]: "jround (Fin (of_int n)) = Fin (of_int n)"
  by (simp add: floor_eq_iff)

lemma jround_numeral [simp]: "jround (Fin (numeral k)) = Fin (numeral k)"
  using jround_of_int [of "numeral k"] by simp

lemma jround_zero [simp]: "jround (Fin 0) = Fin 0"
  using jround_of_int [of 0] by simp

lemma is_fin_iff: "is_fin x = (\<exists>a. x = Fin a)"
  by (cases x) simp_all

lemma jadd_NaN_right [simp]: "jadd x NaN = NaN"
  by (cases x) simp_all

lemma jsub_NaN_left [simp]: "jsub NaN y = NaN"
  by (simp add: jsub_def)

lemma jsub_NaN_right [simp]: "jsub x NaN = NaN"
  by (simp add: jsub_def)

lemma jmul_NaN_right [simp]: "jmul x NaN = NaN"
  by (cases x) simp_all

lemma jdiv_NaN_right [simp]: "jdiv x NaN = NaN"
  by (cases x) simp_all

lemma jlt_NaN_right [simp]: "jlt x NaN = False"
  by (cases x) simp_all

lemma jgt_NaN_left [simp]: "jgt NaN y = False"
  by (simp add: jgt_def)

lemma jmin_NaN_left [simp]: "jmin NaN y = NaN"
  by (simp add: jmin_def)

subsection \<open>The fields of one period\<close>

lemma p_withdrawalAmount_eq:
  "p_withdrawalAmount (period_of c u i s) =
     Fin (firstWithdrawal c + monthlyIncrement c * of_nat i)"
  by (simp add: period_of_def Let_def)

lemma p_effectiveCarryOver_eq:
  "p_effectiveCarryOver (period_of c u i s) = jadd (carryOverPool s) (loanRepaymentDue s)"
  by (simp add: period_of_def Let_def)

lemma p_isLastMonth_eq:
  "p_isLastMonth (period_of c u i s) =
     jlt (jmul (remainingMembers s) (p_withdrawalAmount (period_of c u i s)))
       (jadd (net_pool_of c) (p_effectiveCarryOver (period_of c u i s)))"
  by (simp add: period_of_def Let_def)

lemma p_availablePool_eq:
  "p_availablePool (period_of c u i s) =
     (let v = period_of c u i s;
          e = p_effectiveCarryOver v;
          requiredNet = jsub (jmul (remainingMembers s) (p_withdrawalAmount v)) e
      in if p_isLastMonth v
         then (if jle requiredNet (Fin 0) then e
               else jadd (jsub (jmul (jdiv (jadd requiredNet (commission_of c))
                                        (Fin (of_int (totalMembers c))))
                                  (Fin (of_int (totalMembers c))))
                            (commission_of c)) e)
         else jadd (net_pool_of c) e)"
  by (simp add: period_of_def Let_def)

lemma p_contributionPerMember_eq:
  "p_contributionPerMember (period_of c u i s) =
     (let v = period_of c u i s;
          e = p_effectiveCarryOver v;
          requiredNet = jsub (jmul (remainingMembers s) (p_withdrawalAmount v)) e
      in if p_isLastMonth v
         then (if jle requiredNet (Fin 0) then Fin 0
               else jdiv (jadd requiredNet (commission_of c)) (Fin (of_int (totalMembers c))))
         else Fin (monthlyContribution c))"
  by (simp add: period_of_def Let_def)

lemma p_actualWithdrawals_eq:
  "p_actualWithdrawals (period_of c u i s) =
     jmin (jfloor (jdiv (p_availablePool (period_of c u i s))
                     (p_withdrawalAmount (period_of c u i s))))
       (remainingMembers s)"
  by (simp add: period_of_def Let_def)

lemma p_totalWithdrawn_eq:
  "p_totalWithdrawn (period_of c u i s) =
     jmul (p_withdrawalAmount (period_of c u i s)) (p_actualWithdrawals (period_of c u i s))"
  by (simp add: period_of_def Let_def)

lemma p_remainingPool_eq:
  "p_remainingPool (period_of c u i s) =
     jsub (p_availablePool (period_of c u i s)) (p_totalWithdrawn (period_of c u i s))"
  by (simp add: period_of_def Let_def)

lemma p_lends_eq:
  "p_lends (period_of c u i s) =
     (\<not> p_isLastMonth (period_of c u i s) \<and> jgt (p_remainingPool (period_of c u i s)) (Fin 0))"
  by (simp add: period_of_def Let_def)

lemma p_loanAmount_eq:
  "p_loanAmount (period_of c u i s) =
     (if p_lends (period_of c u i s)
      then jdiv (jmul (p_remainingPool (period_of c u i s)) (Fin u)) (Fin 100)
      else Fin 0)"
  by (simp add: period_of_def Let_def)

lemma p_interestEarned_eq:
  "p_interestEarned (period_of c u i s) =
     (if p_lends (period_of c u i s)
      then jdiv (jmul (p_loanAmount (period_of c u i s)) (Fin (loanInterestRate c))) (Fin 100)
      else Fin 0)"
  by (simp add: period_of_def Let_def)

lemma p_nextMonthRepayment_eq:
  "p_nextMonthRepayment (period_of c u i s) =
     (if p_lends (period_of c u i s)
      then jadd (p_loanAmount (period_of c u i s)) (p_interestEarned (period_of c u i s))
      else Fin 0)"
  by (simp add: period_of_def Let_def)

subsection \<open>The fields of the state after one iteration\<close>

lemma body_remainingMembers:
  "remainingMembers (loop_body c u i s) =
     jsub (remainingMembers s) (p_actualWithdrawals (period_of c u i s))"
  by (simp add: loop_body_def Let_def)

lemma body_carryOverPool:
  "carryOverPool (loop_body c u i s) =
     jsub (p_remainingPool (period_of c u i s)) (p_loanAmount (period_of c u i s))"
  by (simp add: loop_body_def Let_def)

lemma body_loanRepaymentDue:
  "loanRepaymentDue (loop_body c u i s) = p_nextMonthRepayment (period_of c u i s)"
  by (simp add: loop_body_def Let_def)

lemma body_sched:
  "sched (loop_body c u i s) =
     sched s @ [schedule_entry_of i (period_of c u i s) (remainingMembers (loop_body c u i s))]"
  by (simp add: loop_body_def Let_def)

lemma body_loans:
  "loans (loop_body c u i s) =
     (if p_lends (period_of c u i s) then loans s @ [loan_entry_of c i (period_of c u i s)]
      else loans s)"
  by (simp add: loop_body_def Let_def)

subsection \<open>The loop\<close>

lemma chit_loop_exit:
  "\<not> (int i < totalMembers c \<and> jgt (remainingMembers s) (Fin 0)) \<Longrightarrow> chit_loop c u i s = s"
  by (subst chit_loop.simps) auto

lemma chit_loop_break:
  "int i < totalMembers c \<Longrightarrow> jgt (remainingMembers s) (Fin 0)
   \<Longrightarrow> jeq (remainingMembers (loop_body c u i s)) (Fin 0)
   \<Longrightarrow> chit_loop c u i s = loop_body c u i s"
  by (subst chit_loop.simps) (simp add: Let_def)

lemma chit_loop_continue:
  "int i < totalMembers c \<Longrightarrow> jgt (remainingMembers s) (Fin 0)
   \<Longrightarrow> \<not> jeq (remainingMembers (loop_body c u i s)) (Fin 0)
   \<Longrightarrow> chit_loop c u i s = chit_loop c u (Suc i) (loop_body c u i s)"
  by (subst chit_loop.simps) (simp add: Let_def)

text \<open>
  The invariant rule of the loop: what holds at the start and is kept by the body holds
  of the result, together with the negation of the loop test at the final index.
\<close>

lemma chit_loop_rule:
  assumes base: "P i s"
    and step: "\<And>i s. P i s \<Longrightarrow> int i < totalMembers c \<Longrightarrow> jgt (remainingMembers s) (Fin 0)
                 \<Longrightarrow> P (Suc i) (loop_body c u i s)"
  shows "\<exists>j. P j (chit_loop c u i s)
           \<and> \<not> (int j < totalMembers c \<and> jgt (remainingMembers (chit_loop c u i s)) (Fin 0))"
  using assms
proof (induction c u i s rule: chit_loop.induct)
  case (1 c u i s)
  note base = "1.prems"(1) and step = "1.prems"(2)
  show ?case
  proof (cases "int i < totalMembers c \<and> jgt (remainingMembers s) (Fin 0)")
    case False
    then have "chit_loop c u i s = s"
      by (rule chit_loop_exit)
    with False base show ?thesis
      by auto
  next
    case True
    then have P': "P (Suc i) (loop_body c u i s)"
      by (intro step base) simp_all
    show ?thesis
    proof (cases "jeq (remainingMembers (loop_body c u i s)) (Fin 0)")
      case stop: True
      then have eq: "chit_loop c u i s = loop_body c u i s"
        using True by (simp add: chit_loop_break)
      from stop have "\<not> jgt (remainingMembers (loop_body c u i s)) (Fin 0)"
        by (auto simp: jeq_def)
      with P' eq show ?thesis
        by auto
    next
      case go: False
      then have eq: "chit_loop c u i s = chit_loop c u (i + 1) (loop_body c u i s)"
        using True by (simp add: chit_loop_continue)
      have "\<exists>j. P j (chit_loop c u (i + 1) (loop_body c u i s))
              \<and> \<not> (int j < totalMembers c
                    \<and> jgt (remainingMembers (chit_loop c u (i + 1) (loop_body c u i s))) (Fin 0))"
      proof (rule "1.IH" [OF True refl go])
        show "P (i + 1) (loop_body c u i s)"
          using P' by simp
      qed (rule step)
      then show ?thesis
        unfolding eq .
    qed
  qed
qed


lemma sched_chit_loop_prefix: "\<exists>ys. sched (chit_loop c u i s) = sched s @ ys"
proof -
  have "\<exists>j. (\<exists>ys. sched (chit_loop c u i s) = sched s @ ys)
          \<and> \<not> (int j < totalMembers c \<and> jgt (remainingMembers (chit_loop c u i s)) (Fin 0))"
    by (rule chit_loop_rule [where P = "\<lambda>j t. \<exists>ys. sched t = sched s @ ys"])
       (auto simp: body_sched)
  then show ?thesis
    by blast
qed

lemma loans_chit_loop_prefix: "\<exists>ys. loans (chit_loop c u i s) = loans s @ ys"
proof -
  have "\<exists>j. (\<exists>ys. loans (chit_loop c u i s) = loans s @ ys)
          \<and> \<not> (int j < totalMembers c \<and> jgt (remainingMembers (chit_loop c u i s)) (Fin 0))"
    by (rule chit_loop_rule [where P = "\<lambda>j t. \<exists>ys. loans t = loans s @ ys"])
       (auto simp: body_loans)
  then show ?thesis
    by blast
qed

lemma chit_loop_first:
  assumes "0 < totalMembers c"
  shows "chit_loop c u 0 (initial_state c) = loop_body c u 0 (initial_state c)
       \<or> chit_loop c u 0 (initial_state c) = chit_loop c u (Suc 0) (loop_body c u 0 (initial_state c))"
proof -
  have "jgt (remainingMembers (initial_state c)) (Fin 0)"
    using assms by (simp add: initial_state_def)
  with assms show ?thesis
    using chit_loop_break [of 0 c "initial_state c" u]
      chit_loop_continue [of 0 c "initial_state c" u]
    by auto
qed

text \<open>The first entries of the two arrays are those of the first iteration.\<close>

lemma sched_first:
  assumes "0 < totalMembers c"
  shows "\<exists>ys. sched (chit_loop c u 0 (initial_state c)) =
           schedule_entry_of 0 (period_of c u 0 (initial_state c))
             (remainingMembers (loop_body c u 0 (initial_state c))) # ys"
proof -
  have b: "sched (loop_body c u 0 (initial_state c)) =
        [schedule_entry_of 0 (period_of c u 0 (initial_state c))
           (remainingMembers (loop_body c u 0 (initial_state c)))]"
    by (simp add: body_sched) (simp add: initial_state_def)
  from chit_loop_first [OF assms, of u] show ?thesis
  proof
    assume "chit_loop c u 0 (initial_state c) = loop_body c u 0 (initial_state c)"
    with b show ?thesis
      by simp
  next
    assume e: "chit_loop c u 0 (initial_state c) =
                 chit_loop c u (Suc 0) (loop_body c u 0 (initial_state c))"
    obtain ys where "sched (chit_loop c u (Suc 0) (loop_body c u 0 (initial_state c))) =
        sched (loop_body c u 0 (initial_state c)) @ ys"
      using sched_chit_loop_prefix by blast
    with e b show ?thesis
      by simp
  qed
qed

lemma loans_first:
  assumes "0 < totalMembers c" and "p_lends (period_of c u 0 (initial_state c))"
  shows "\<exists>ys. loans (chit_loop c u 0 (initial_state c)) =
           loan_entry_of c 0 (period_of c u 0 (initial_state c)) # ys"
proof -
  have b: "loans (loop_body c u 0 (initial_state c)) =
        [loan_entry_of c 0 (period_of c u 0 (initial_state c))]"
    using assms(2) by (simp add: body_loans) (simp add: initial_state_def)
  from chit_loop_first [OF assms(1), of u] show ?thesis
  proof
    assume "chit_loop c u 0 (initial_state c) = loop_body c u 0 (initial_state c)"
    with b show ?thesis
      by simp
  next
    assume e: "chit_loop c u 0 (initial_state c) =
                 chit_loop c u (Suc 0) (loop_body c u 0 (initial_state c))"
    obtain ys where "loans (chit_loop c u (Suc 0) (loop_body c u 0 (initial_state c))) =
        loans (loop_body c u 0 (initial_state c)) @ ys"
      using loans_chit_loop_prefix by blast
    with e b show ?thesis
      by simp
  qed
qed

subsection \<open>The values a run can reach\<close>

lemma commission_is_fin: "totalMembers c \<noteq> 0 \<Longrightarrow> is_fin (commission_of c)"
  by (simp add: commission_of_def pool_of_def split: commission_type.split)

lemma commission_fin: "totalMembers c \<noteq> 0 \<Longrightarrow> \<exists>cm. commission_of c = Fin cm"
  using commission_is_fin [of c] by (simp add: is_fin_iff)

lemma net_pool_fin: "totalMembers c \<noteq> 0 \<Longrightarrow> \<exists>np. net_pool_of c = Fin np"
  using commission_fin [of c] by (auto simp: net_pool_of_def pool_of_def)

lemma actual_cases:
  "jmin (jfloor (jdiv (Fin a) (Fin w))) (Fin r) =
     (if w = 0 then (if a = 0 then NaN else if 0 < a then Fin r else NInf)
      else Fin (min (of_int \<lfloor>a / w\<rfloor>) r))"
  by (simp add: jmin_def)

text \<open>
  With finite state and a member count other than zero, the pool of the period is finite:
  the only division before it is the one by \<open>totalMembers\<close>.
\<close>

lemma availablePool_fin:
  assumes "remainingMembers s = Fin r" "carryOverPool s = Fin k" "loanRepaymentDue s = Fin d"
    and "totalMembers c \<noteq> 0"
  shows "\<exists>a. p_availablePool (period_of c u i s) = Fin a"
proof -
  obtain cm np where "commission_of c = Fin cm" "net_pool_of c = Fin np"
    using commission_fin [OF assms(4)] net_pool_fin [OF assms(4)] by blast
  then show ?thesis
    using assms
    by (simp add: p_availablePool_eq p_effectiveCarryOver_eq p_withdrawalAmount_eq
        p_isLastMonth_eq Let_def)
qed


lemma period_NaN_carry:
  assumes "carryOverPool s = NaN"
  shows "p_actualWithdrawals (period_of c u i s) = NaN"
    and "carryOverPool (loop_body c u i s) = NaN"
proof -
  have e: "p_effectiveCarryOver (period_of c u i s) = NaN"
    using assms by (simp add: p_effectiveCarryOver_eq)
  then have l: "\<not> p_isLastMonth (period_of c u i s)"
    by (simp add: p_isLastMonth_eq)
  with e have a: "p_availablePool (period_of c u i s) = NaN"
    by (simp add: p_availablePool_eq Let_def)
  then show m: "p_actualWithdrawals (period_of c u i s) = NaN"
    by (simp add: p_actualWithdrawals_eq)
  with a have "p_remainingPool (period_of c u i s) = NaN"
    by (simp add: p_remainingPool_eq)
  then show "carryOverPool (loop_body c u i s) = NaN"
    by (simp add: body_carryOverPool)
qed

lemma period_fin_state:
  assumes "remainingMembers s = Fin r" "carryOverPool s = Fin k" "loanRepaymentDue s = Fin d"
    and "totalMembers c \<noteq> 0"
  shows "p_actualWithdrawals (period_of c u i s) \<noteq> PInf"
    and "state_ok (loop_body c u i s)"
proof -
  let ?v = "period_of c u i s"
  let ?w = "firstWithdrawal c + monthlyIncrement c * of_nat i"
  obtain a where a: "p_availablePool ?v = Fin a"
    using availablePool_fin [OF assms] by blast
  have m: "p_actualWithdrawals ?v =
      (if ?w = 0 then (if a = 0 then NaN else if 0 < a then Fin r else NInf)
       else Fin (min (of_int \<lfloor>a / ?w\<rfloor>) r))"
    by (simp only: p_actualWithdrawals_eq a p_withdrawalAmount_eq assms(1) actual_cases)
  show "p_actualWithdrawals ?v \<noteq> PInf"
    by (simp add: m)
  show "state_ok (loop_body c u i s)"
  proof (cases "is_fin (p_actualWithdrawals ?v)")
    case True
    then obtain q where q: "p_actualWithdrawals ?v = Fin q"
      by (auto simp: is_fin_iff)
    then have rp: "p_remainingPool ?v = Fin (a - ?w * q)"
      by (simp add: p_remainingPool_eq p_totalWithdrawn_eq a p_withdrawalAmount_eq)
    then have "is_fin (carryOverPool (loop_body c u i s))"
      and "is_fin (loanRepaymentDue (loop_body c u i s))"
      by (simp_all add: body_carryOverPool body_loanRepaymentDue p_loanAmount_eq
          p_nextMonthRepayment_eq p_interestEarned_eq)
    moreover have "is_fin (remainingMembers (loop_body c u i s))"
      by (simp add: body_remainingMembers q assms(1))
    ultimately show ?thesis
      by (simp add: state_ok_def)
  next
    case False
    with m have w0: "?w = 0"
      by (auto split: if_splits)
    from False m have "p_actualWithdrawals ?v = NaN \<or> p_actualWithdrawals ?v = NInf"
      by (auto split: if_splits)
    then have "p_totalWithdrawn ?v = NaN"
      by (auto simp: p_totalWithdrawn_eq p_withdrawalAmount_eq w0 inf_signed_def)
    then have "p_remainingPool ?v = NaN"
      by (simp add: p_remainingPool_eq)
    then have "carryOverPool (loop_body c u i s) = NaN"
      by (simp add: body_carryOverPool)
    then show ?thesis
      by (simp add: state_ok_def)
  qed
qed

lemma body_state_ok:
  assumes "state_ok s" and "totalMembers c \<noteq> 0"
  shows "state_ok (loop_body c u i s) \<and> p_actualWithdrawals (period_of c u i s) \<noteq> PInf"
proof (cases "carryOverPool s = NaN")
  case True
  then show ?thesis
    using period_NaN_carry [of s c u i] by (simp add: state_ok_def)
next
  case False
  with assms(1) obtain r k d where
    "remainingMembers s = Fin r" "carryOverPool s = Fin k" "loanRepaymentDue s = Fin d"
    by (auto simp: state_ok_def is_fin_iff)
  then show ?thesis
    using period_fin_state [OF _ _ _ assms(2), of s r k d u i] by simp
qed


lemma member_returns_total:
  "\<forall>e\<in>set es. actualWithdrawals e \<noteq> PInf \<Longrightarrow> \<exists>ms. member_returns ws es n acc = Inr ms"
proof (induction es arbitrary: n acc)
  case Nil
  show ?case by simp
next
  case (Cons e es)
  then have IH: "\<And>n acc. \<exists>ms. member_returns ws es n acc = Inr ms"
    by simp
  from Cons.prems have "actualWithdrawals e \<noteq> PInf"
    by simp
  then show ?case
    using IH by (cases "actualWithdrawals e") (auto split: prod.split)
qed

lemma run_ok:
  assumes "0 < totalMembers c"
  shows "state_ok (chit_loop c u 0 (initial_state c))"
    and "\<forall>e\<in>set (sched (chit_loop c u 0 (initial_state c))). actualWithdrawals e \<noteq> PInf"
    and "sched (chit_loop c u 0 (initial_state c)) \<noteq> []"
    and "int (length (sched (chit_loop c u 0 (initial_state c)))) \<le> totalMembers c"
proof -
  let ?P = "\<lambda>j t. state_ok t \<and> (\<forall>e\<in>set (sched t). actualWithdrawals e \<noteq> PInf)
              \<and> length (sched t) = j \<and> int j \<le> totalMembers c"
  have "\<exists>j. ?P j (chit_loop c u 0 (initial_state c))
          \<and> \<not> (int j < totalMembers c
                \<and> jgt (remainingMembers (chit_loop c u 0 (initial_state c))) (Fin 0))"
  proof (rule chit_loop_rule [where P = ?P])
    show "?P 0 (initial_state c)"
      using assms by (simp add: initial_state_def state_ok_def)
  next
    fix i s
    assume P: "?P i s" and i: "int i < totalMembers c"
    from assms have "totalMembers c \<noteq> 0"
      by simp
    with P have "state_ok (loop_body c u i s)"
      and "p_actualWithdrawals (period_of c u i s) \<noteq> PInf"
      using body_state_ok [of s c u i] by simp_all
    with P i show "?P (Suc i) (loop_body c u i s)"
      by (simp add: body_sched schedule_entry_of_def)
  qed
  then show "state_ok (chit_loop c u 0 (initial_state c))"
    and "\<forall>e\<in>set (sched (chit_loop c u 0 (initial_state c))). actualWithdrawals e \<noteq> PInf"
    and "int (length (sched (chit_loop c u 0 (initial_state c)))) \<le> totalMembers c"
    by auto
  show "sched (chit_loop c u 0 (initial_state c)) \<noteq> []"
    using sched_first [OF assms, of u] by auto
qed

text \<open>For a positive member count the function returns, and this is what it returns.\<close>

lemma returns_details:
  assumes "0 < totalMembers c"
  shows "\<exists>ms. calculateChitDetails c u =
           Inr (details_of c (chit_loop c u 0 (initial_state c)) ms)"
proof -
  let ?f = "chit_loop c u 0 (initial_state c)"
  obtain ms where "member_returns (sched ?f) (sched ?f) 1 [] = Inr ms"
    using member_returns_total [OF run_ok(2) [OF assms]] by blast
  with assms run_ok(3) [OF assms, of u] show ?thesis
    by (auto simp: calculateChitDetails_def Let_def)
qed


subsection \<open>Runs as iterated loop bodies\<close>

lemma sched_state_after:
  "sched (state_after c u n) =
     map (\<lambda>k. schedule_entry_of k (period_of c u k (state_after c u k))
                (remainingMembers (state_after c u (Suc k)))) [0..<n]"
proof (induction n)
  case 0
  show ?case by (simp add: initial_state_def)
next
  case (Suc n)
  then show ?case
    by (simp add: body_sched)
qed

lemma run_trace:
  assumes "0 < totalMembers c"
  shows "\<exists>L. run c u = state_after c u L \<and> 0 < L \<and> int L \<le> totalMembers c
           \<and> (\<forall>n<L. jgt (remainingMembers (state_after c u n)) (Fin 0))
           \<and> (int L = totalMembers c \<or> \<not> jgt (remainingMembers (state_after c u L)) (Fin 0))"
proof -
  let ?P = "\<lambda>j t. t = state_after c u j \<and> int j \<le> totalMembers c
              \<and> (\<forall>n<j. jgt (remainingMembers (state_after c u n)) (Fin 0))"
  have "\<exists>j. ?P j (chit_loop c u 0 (initial_state c))
          \<and> \<not> (int j < totalMembers c
                \<and> jgt (remainingMembers (chit_loop c u 0 (initial_state c))) (Fin 0))"
  proof (rule chit_loop_rule [where P = ?P])
    show "?P 0 (initial_state c)"
      using assms by simp
  next
    fix i s
    assume P: "?P i s" and i: "int i < totalMembers c"
      and g: "jgt (remainingMembers s) (Fin 0)"
    show "?P (Suc i) (loop_body c u i s)"
      using P i g by (auto simp: less_Suc_eq)
  qed
  then obtain L where L: "run c u = state_after c u L" "int L \<le> totalMembers c"
    "\<forall>n<L. jgt (remainingMembers (state_after c u n)) (Fin 0)"
    "\<not> (int L < totalMembers c \<and> jgt (remainingMembers (state_after c u L)) (Fin 0))"
    unfolding run_def by auto
  have "0 < L"
  proof (rule ccontr)
    assume "\<not> 0 < L"
    then have "L = 0" by simp
    with L(4) assms show False
      by (simp add: initial_state_def)
  qed
  with L show ?thesis
    by (intro exI [of _ L]) auto
qed

lemma length_sched_state_after [simp]: "length (sched (state_after c u n)) = n"
  by (simp add: sched_state_after)

lemma run_stop_first:
  assumes "0 < totalMembers c"
    and "\<not> jgt (remainingMembers (loop_body c u 0 (initial_state c))) (Fin 0)"
  shows "run c u = loop_body c u 0 (initial_state c)"
proof -
  from chit_loop_first [OF assms(1), of u] show ?thesis
  proof
    assume "chit_loop c u 0 (initial_state c) = loop_body c u 0 (initial_state c)"
    then show ?thesis
      by (simp add: run_def)
  next
    assume "chit_loop c u 0 (initial_state c) =
              chit_loop c u (Suc 0) (loop_body c u 0 (initial_state c))"
    with assms(2) show ?thesis
      by (simp add: run_def chit_loop_exit)
  qed
qed

lemma result_fields:
  assumes "0 < totalMembers c"
  shows "\<not> isl (calculateChitDetails c u)"
    and "duration (projr (calculateChitDetails c u)) = length (sched (run c u))"
    and "totalPool (projr (calculateChitDetails c u)) = pool_of c"
    and "commissionPerMonth (projr (calculateChitDetails c u)) = jround (commission_of c)"
    and "totalCommission (projr (calculateChitDetails c u)) = jround (total_commission_of c)"
    and "netPoolPerMonth (projr (calculateChitDetails c u)) = net_pool_of c"
    and "withdrawalSchedule (projr (calculateChitDetails c u)) = sched (run c u)"
    and "totalMembersServed (projr (calculateChitDetails c u)) =
           jsub (Fin (of_int (totalMembers c))) (remainingMembersAfter (last (sched (run c u))))"
    and "finalCarryOver (projr (calculateChitDetails c u)) = remainingPool (last (sched (run c u)))"
    and "loanDetails (projr (calculateChitDetails c u)) = loans (run c u)"
    and "totalLoanAmount (projr (calculateChitDetails c u)) = jround (loanTotal (run c u))"
    and "totalInterestEarned (projr (calculateChitDetails c u)) = jround (interestTotal (run c u))"
proof -
  obtain ms where "calculateChitDetails c u = Inr (details_of c (run c u) ms)"
    using returns_details [OF assms, of u] unfolding run_def by blast
  then show "\<not> isl (calculateChitDetails c u)"
    and "duration (projr (calculateChitDetails c u)) = length (sched (run c u))"
    and "totalPool (projr (calculateChitDetails c u)) = pool_of c"
    and "commissionPerMonth (projr (calculateChitDetails c u)) = jround (commission_of c)"
    and "totalCommission (projr (calculateChitDetails c u)) = jround (total_commission_of c)"
    and "netPoolPerMonth (projr (calculateChitDetails c u)) = net_pool_of c"
    and "withdrawalSchedule (projr (calculateChitDetails c u)) = sched (run c u)"
    and "totalMembersServed (projr (calculateChitDetails c u)) =
           jsub (Fin (of_int (totalMembers c))) (remainingMembersAfter (last (sched (run c u))))"
    and "finalCarryOver (projr (calculateChitDetails c u)) = remainingPool (last (sched (run c u)))"
    and "loanDetails (projr (calculateChitDetails c u)) = loans (run c u)"
    and "totalLoanAmount (projr (calculateChitDetails c u)) = jround (loanTotal (run c u))"
    and "totalInterestEarned (projr (calculateChitDetails c u)) = jround (interestTotal (run c u))"
    by (simp_all add: details_of_def)
qed

lemma result_exists:
  assumes "0 < totalMembers c"
  shows "calculateChitDetails c u = Inr (projr (calculateChitDetails c u))"
  using result_fields(1) [OF assms, of u] by (cases "calculateChitDetails c u") simp_all



lemma run_state_after:
  assumes "0 < totalMembers c"
  shows "run c u = state_after c u (length (sched (run c u)))"
proof -
  obtain L where "run c u = state_after c u L"
    using run_trace [OF assms, of u] by blast
  then show ?thesis
    by simp
qed

lemma run_nth:
  assumes "0 < totalMembers c" and "n < length (sched (run c u))"
  shows "sched (run c u) ! n =
           schedule_entry_of n (period_of c u n (state_after c u n))
             (remainingMembers (state_after c u (Suc n)))"
proof -
  have "sched (run c u) ! n = sched (state_after c u (length (sched (run c u)))) ! n"
    using run_state_after [OF assms(1), of u] by simp
  also have "\<dots> = schedule_entry_of n (period_of c u n (state_after c u n))
             (remainingMembers (state_after c u (Suc n)))"
    using assms(2) by (simp add: sched_state_after)
  finally show ?thesis .
qed

lemma run_continues:
  assumes "0 < totalMembers c" and "n < length (sched (run c u))"
  shows "jgt (remainingMembers (state_after c u n)) (Fin 0)"
proof -
  obtain L where L: "run c u = state_after c u L"
    "\<forall>n<L. jgt (remainingMembers (state_after c u n)) (Fin 0)"
    using run_trace [OF assms(1), of u] by blast
  then have "length (sched (run c u)) = L"
    by simp
  with L(2) assms(2) show ?thesis
    by simp
qed





subsection \<open>Periods from a finite state\<close>

text \<open>
  From a state whose three numbers are finite, with a withdrawal amount other than zero,
  one period is a computation on rationals: the pool \<open>a\<close>, the withdrawals \<open>m\<close> and
  the remaining pool.
\<close>

lemma fin_period:
  fixes u :: rat
  assumes s: "remainingMembers s = Fin r" "carryOverPool s = Fin k" "loanRepaymentDue s = Fin d"
    and pos: "0 < totalMembers c"
    and w: "withdrawal_at c i \<noteq> 0"
    and np: "net_pool_of c = Fin np"
  defines "v \<equiv> period_of c u i s"
  defines "a \<equiv> (if r * withdrawal_at c i < np + (k + d)
                 then (if r * withdrawal_at c i \<le> k + d then k + d else r * withdrawal_at c i)
                 else np + (k + d))"
  defines "m \<equiv> min (of_int \<lfloor>a / withdrawal_at c i\<rfloor>) r"
  shows "p_isLastMonth v = (r * withdrawal_at c i < np + (k + d))"
    and "p_availablePool v = Fin a"
    and "p_actualWithdrawals v = Fin m"
    and "p_remainingPool v = Fin (a - withdrawal_at c i * m)"
proof -
  have wa: "p_withdrawalAmount v = Fin (withdrawal_at c i)"
    by (simp add: v_def p_withdrawalAmount_eq withdrawal_at_def)
  have e: "p_effectiveCarryOver v = Fin (k + d)"
    by (simp add: v_def p_effectiveCarryOver_eq s)
  show l: "p_isLastMonth v = (r * withdrawal_at c i < np + (k + d))"
    using wa e unfolding v_def by (simp add: p_isLastMonth_eq s np)
  from pos have nz: "totalMembers c \<noteq> 0"
    by simp
  obtain cm where cm: "commission_of c = Fin cm"
    using commission_fin [OF nz] by blast
  show av: "p_availablePool v = Fin a"
    using wa e l nz unfolding v_def
    by (simp add: p_availablePool_eq Let_def s np cm a_def)
  show mv: "p_actualWithdrawals v = Fin m"
    using wa av w unfolding v_def
    by (simp add: p_actualWithdrawals_eq s m_def)
  show "p_remainingPool v = Fin (a - withdrawal_at c i * m)"
    using wa av mv unfolding v_def
    by (simp add: p_remainingPool_eq p_totalWithdrawn_eq)
qed

text \<open>The state after such a period.\<close>

lemma fin_body:
  fixes u :: rat
  assumes s: "remainingMembers s = Fin r" "carryOverPool s = Fin k" "loanRepaymentDue s = Fin d"
    and pos: "0 < totalMembers c"
    and w: "withdrawal_at c i \<noteq> 0"
    and np: "net_pool_of c = Fin np"
  defines "a \<equiv> (if r * withdrawal_at c i < np + (k + d)
                 then (if r * withdrawal_at c i \<le> k + d then k + d else r * withdrawal_at c i)
                 else np + (k + d))"
  defines "m \<equiv> min (of_int \<lfloor>a / withdrawal_at c i\<rfloor>) r"
  defines "rp \<equiv> a - withdrawal_at c i * m"
  defines "lends \<equiv> \<not> r * withdrawal_at c i < np + (k + d) \<and> 0 < rp"
  shows "remainingMembers (loop_body c u i s) = Fin (r - m)"
    and "carryOverPool (loop_body c u i s) = Fin (if lends then rp - rp * u / 100 else rp)"
    and "loanRepaymentDue (loop_body c u i s) =
           Fin (if lends then rp * u / 100 + rp * u / 100 * loanInterestRate c / 100 else 0)"
proof -
  let ?v = "period_of c u i s"
  note p = fin_period [OF s pos w np, of u, folded a_def, folded m_def, folded rp_def]
  show "remainingMembers (loop_body c u i s) = Fin (r - m)"
    by (simp add: body_remainingMembers p s)
  have ld: "p_lends ?v = lends"
    by (simp add: p_lends_eq p lends_def)
  then have la: "p_loanAmount ?v = Fin (if lends then rp * u / 100 else 0)"
    by (simp add: p_loanAmount_eq p)
  show "carryOverPool (loop_body c u i s) = Fin (if lends then rp - rp * u / 100 else rp)"
    by (simp add: body_carryOverPool p la)
  show "loanRepaymentDue (loop_body c u i s) =
           Fin (if lends then rp * u / 100 + rp * u / 100 * loanInterestRate c / 100 else 0)"
    by (simp add: body_loanRepaymentDue p_nextMonthRepayment_eq p_interestEarned_eq ld la)
qed

lemma withdrawal_at_pos:
  "0 < firstWithdrawal c \<Longrightarrow> 0 \<le> monthlyIncrement c \<Longrightarrow> 0 < withdrawal_at c i"
  by (simp add: withdrawal_at_def add_pos_nonneg)

text \<open>
  With withdrawal amounts that are never zero, the member count stays a non-negative
  integer and the carried amounts stay finite.
\<close>

lemma state_after_integral:
  fixes u :: rat
  assumes pos: "0 < totalMembers c"
    and w: "\<forall>i<n. withdrawal_at c i \<noteq> 0"
  shows "\<exists>z k d. remainingMembers (state_after c u n) = Fin (of_int z) \<and> 0 \<le> z
           \<and> carryOverPool (state_after c u n) = Fin k
           \<and> loanRepaymentDue (state_after c u n) = Fin d"
  using w
proof (induction n)
  case 0
  show ?case
    using pos by (simp add: initial_state_def)
next
  case (Suc n)
  then obtain z k d where st: "remainingMembers (state_after c u n) = Fin (of_int z)"
    "0 \<le> z" "carryOverPool (state_after c u n) = Fin k"
    "loanRepaymentDue (state_after c u n) = Fin d"
    by auto
  from Suc.prems have wn: "withdrawal_at c n \<noteq> 0"
    by simp
  from pos obtain np where np: "net_pool_of c = Fin np"
    using net_pool_fin [of c] by auto
  define a where "a = (if of_int z * withdrawal_at c n < np + (k + d)
                 then (if of_int z * withdrawal_at c n \<le> k + d then k + d
                       else of_int z * withdrawal_at c n)
                 else np + (k + d))"
  note b = fin_body [OF st(1,3,4) pos wn np, of u, folded a_def]
  have m: "min (of_int \<lfloor>a / withdrawal_at c n\<rfloor>) (of_int z :: rat) =
             of_int (min \<lfloor>a / withdrawal_at c n\<rfloor> z)"
    by (simp add: min_def)
  have "remainingMembers (state_after c u (Suc n)) =
          Fin (of_int (z - min \<lfloor>a / withdrawal_at c n\<rfloor> z))"
    by (simp add: b(1) m)
  moreover have "0 \<le> z - min \<lfloor>a / withdrawal_at c n\<rfloor> z"
    by simp
  ultimately show ?case
    using b(2,3) by (metis state_after.simps(2))
qed

text \<open>
  A settlement month with a positive withdrawal amount pays every remaining member: the
  recomputed pool is exactly \<open>remainingMembers * withdrawalAmount\<close>, so the quotient is
  the member count. This is where exact arithmetic matters most: in the doubles of the
  program the recomputed pool can fall short of the product by a rounding error, and
  \<open>Math.floor\<close> of the quotient is then one member less.
\<close>

lemma settlement_clears:
  fixes u :: rat
  assumes st: "remainingMembers s = Fin (of_int z)" "carryOverPool s = Fin k"
      "loanRepaymentDue s = Fin d"
    and pos: "0 < totalMembers c"
    and w: "0 < withdrawal_at c i"
    and l: "p_isLastMonth (period_of c u i s)"
  shows "p_actualWithdrawals (period_of c u i s) = Fin (of_int z)"
    and "remainingMembers (loop_body c u i s) = Fin 0"
proof -
  from pos obtain np where np: "net_pool_of c = Fin np"
    using net_pool_fin [of c] by auto
  from w have wn: "withdrawal_at c i \<noteq> 0"
    by simp
  define a where "a = (if of_int z * withdrawal_at c i < np + (k + d)
                 then (if of_int z * withdrawal_at c i \<le> k + d then k + d
                       else of_int z * withdrawal_at c i)
                 else np + (k + d))"
  note p = fin_period [OF st pos wn np, of u, folded a_def]
  from l p(1) have "of_int z * withdrawal_at c i \<le> a"
    by (simp add: a_def)
  with w have "of_int z \<le> a / withdrawal_at c i"
    by (simp add: pos_le_divide_eq)
  then have "z \<le> \<lfloor>a / withdrawal_at c i\<rfloor>"
    by (simp add: le_floor_iff)
  then have "min (of_int \<lfloor>a / withdrawal_at c i\<rfloor>) (of_int z :: rat) = of_int z"
    by (simp add: min_def)
  with p(3) show m: "p_actualWithdrawals (period_of c u i s) = Fin (of_int z)"
    by simp
  show "remainingMembers (loop_body c u i s) = Fin 0"
    by (simp add: body_remainingMembers m st)
qed

text \<open>A run is known once the loop test is known at each index.\<close>

lemma chit_loop_state_after:
  assumes "\<forall>i. j \<le> i \<and> i < n \<longrightarrow>
             int i < totalMembers c \<and> jgt (remainingMembers (state_after c u i)) (Fin 0)"
    and "\<not> (int n < totalMembers c \<and> jgt (remainingMembers (state_after c u n)) (Fin 0))"
    and "j \<le> n"
  shows "chit_loop c u j (state_after c u j) = state_after c u n"
  using assms
proof (induction "n - j" arbitrary: j)
  case 0
  then have "j = n"
    by simp
  with "0.prems"(2) show ?case
    by (simp add: chit_loop_exit)
next
  case (Suc d)
  then have lt: "j < n"
    by simp
  with Suc.prems(1) have c: "int j < totalMembers c"
    "jgt (remainingMembers (state_after c u j)) (Fin 0)"
    by auto
  show ?case
  proof (cases "jeq (remainingMembers (loop_body c u j (state_after c u j))) (Fin 0)")
    case True
    have "Suc j = n"
    proof (rule ccontr)
      assume "Suc j \<noteq> n"
      with lt have "Suc j < n"
        by simp
      with Suc.prems(1) [rule_format, of "Suc j"]
      have "jgt (remainingMembers (state_after c u (Suc j))) (Fin 0)"
        by (simp del: state_after.simps)
      with True show False
        by (auto simp: jeq_def)
    qed
    with True c show ?thesis
      by (auto simp: chit_loop_break)
  next
    case False
    with c have "chit_loop c u j (state_after c u j) =
        chit_loop c u (Suc j) (state_after c u (Suc j))"
      by (simp add: chit_loop_continue)
    also have "\<dots> = state_after c u n"
    proof (rule Suc.hyps(1))
      show "d = n - Suc j"
        using Suc.hyps(2) by simp
      show "\<forall>i. Suc j \<le> i \<and> i < n \<longrightarrow>
             int i < totalMembers c \<and> jgt (remainingMembers (state_after c u i)) (Fin 0)"
        using Suc.prems(1) by auto
      show "\<not> (int n < totalMembers c \<and> jgt (remainingMembers (state_after c u n)) (Fin 0))"
        by (rule Suc.prems(2))
      show "Suc j \<le> n"
        using lt by simp
    qed
    finally show ?thesis .
  qed
qed

lemma run_eq_state_after:
  assumes "\<forall>i<n. int i < totalMembers c \<and> jgt (remainingMembers (state_after c u i)) (Fin 0)"
    and "\<not> (int n < totalMembers c \<and> jgt (remainingMembers (state_after c u n)) (Fin 0))"
  shows "run c u = state_after c u n"
  using chit_loop_state_after [of 0 n c u] assms by (simp add: run_def)

lemma schedule_of_result:
  assumes "calculateChitDetails c u = Inr r" and "withdrawalSchedule r \<noteq> []"
  shows "0 < totalMembers c" and "withdrawalSchedule r = sched (run c u)"
proof -
  show pos: "0 < totalMembers c"
  proof (rule ccontr)
    assume "\<not> 0 < totalMembers c"
    with assms(1) have "r = empty_details"
      by (simp add: calculateChitDetails_def)
    with assms(2) show False
      by (simp add: empty_details_def)
  qed
  from assms(1) have "r = projr (calculateChitDetails c u)"
    by simp
  then show "withdrawalSchedule r = sched (run c u)"
    by (simp add: result_fields [OF pos])
qed




lemma entries_of_two_periods:
  assumes "run c u = state_after c u (Suc (Suc 0))"
  shows "sched (run c u) =
      [schedule_entry_of 0 (period_of c u 0 (state_after c u 0))
         (remainingMembers (state_after c u (Suc 0))),
       schedule_entry_of (Suc 0) (period_of c u (Suc 0) (state_after c u (Suc 0)))
         (remainingMembers (state_after c u (Suc (Suc 0))))]"
  unfolding assms sched_state_after by (simp del: state_after.simps)

lemma small_settlement:
  defines "c \<equiv> \<lparr> totalMembers = 2, monthlyContribution = 100, firstWithdrawal = 50,
              monthlyIncrement = 0, commissionType = Monthly, commissionRate = 10,
              oneTimeCommission = 0, loanInterestRate = 2 \<rparr>"
  shows "0 < length (sched (run c 50))"
    and "isLastMonth (sched (run c 50) ! 0)"
proof -
  have pos: "0 < totalMembers c"
    by (simp add: c_def)
  have np: "net_pool_of c = Fin 180"
    by (simp add: net_pool_of_def commission_of_def pool_of_def c_def)
  have s0: "remainingMembers (state_after c 50 0) = Fin 2"
    "carryOverPool (state_after c 50 0) = Fin 0"
    "loanRepaymentDue (state_after c 50 0) = Fin 0"
    by (simp_all add: initial_state_def c_def)
  have w0: "withdrawal_at c 0 \<noteq> 0"
    by (simp add: withdrawal_at_def c_def)
  have p0: "p_isLastMonth (period_of c 50 0 (state_after c 50 0))"
    unfolding fin_period(1) [OF s0 pos w0 np, of 50]
    by (simp add: withdrawal_at_def c_def)
  show len: "0 < length (sched (run c 50))"
    using run_ok(3) [OF pos, of 50] by (simp add: run_def)
  show "isLastMonth (sched (run c 50) ! 0)"
    unfolding run_nth [OF pos len] using p0 by (simp add: schedule_entry_of_def)
qed

lemma withdrawals_sum_state_after:
  fixes u :: rat
  assumes pos: "0 < totalMembers c"
    and w: "\<forall>i<n. withdrawal_at c i \<noteq> 0"
  shows "withdrawals_sum (sched (state_after c u n)) =
           jsub (Fin (of_int (totalMembers c))) (remainingMembers (state_after c u n))"
  using w
proof (induction n)
  case 0
  show ?case
    by (simp add: withdrawals_sum_def initial_state_def)
next
  case (Suc n)
  then have IH: "withdrawals_sum (sched (state_after c u n)) =
           jsub (Fin (of_int (totalMembers c))) (remainingMembers (state_after c u n))"
    by simp
  from Suc.prems have wn: "withdrawal_at c n \<noteq> 0" and wl: "\<forall>i<n. withdrawal_at c i \<noteq> 0"
    by simp_all
  obtain z k d where st: "remainingMembers (state_after c u n) = Fin (of_int z)"
    "carryOverPool (state_after c u n) = Fin k" "loanRepaymentDue (state_after c u n) = Fin d"
    using state_after_integral [OF pos wl, of u] by blast
  obtain np where np: "net_pool_of c = Fin np"
    using net_pool_fin [of c] pos by auto
  note p = fin_period(3) [OF st pos wn np, of u]
  note b = fin_body(1) [OF st pos wn np, of u]
  have "withdrawals_sum (sched (state_after c u (Suc n))) =
      jadd (withdrawals_sum (sched (state_after c u n)))
        (p_actualWithdrawals (period_of c u n (state_after c u n)))"
    by (simp add: withdrawals_sum_def body_sched schedule_entry_of_def)
  also have "\<dots> = jsub (Fin (of_int (totalMembers c)))
      (remainingMembers (loop_body c u n (state_after c u n)))"
    unfolding IH p b st by simp
  finally show ?case
    by simp
qed

text \<open>
  When no period has a withdrawal amount of zero, the members served are the sum of the
  monthly withdrawal counts and at most \<open>totalMembers\<close>.
\<close>

lemma served_is_sum_of_withdrawals:
  assumes pos: "0 < totalMembers c"
    and w: "\<forall>i. int i < totalMembers c \<longrightarrow> withdrawal_at c i \<noteq> 0"
  shows "\<exists>r. calculateChitDetails c u = Inr r
           \<and> is_fin (totalMembersServed r)
           \<and> jeq (withdrawals_sum (withdrawalSchedule r)) (totalMembersServed r)
           \<and> jle (totalMembersServed r) (Fin (of_int (totalMembers c)))"
proof -
  let ?r = "projr (calculateChitDetails c u)"
  let ?L = "length (sched (run c u))"
  have len: "int ?L \<le> totalMembers c" and ne: "sched (run c u) \<noteq> []"
    using run_ok(3,4) [OF pos, of u] by (simp_all add: run_def)
  then have wl: "\<forall>i<?L. withdrawal_at c i \<noteq> 0"
    using w by auto
  have run: "run c u = state_after c u ?L"
    by (rule run_state_after [OF pos])
  obtain z where z: "remainingMembers (run c u) = Fin (of_int z)" "0 \<le> z"
    using state_after_integral [OF pos wl, of u] run by auto
  from ne have "last (sched (run c u)) = sched (run c u) ! (?L - 1)"
    by (rule last_conv_nth)
  also have "\<dots> = schedule_entry_of (?L - 1) (period_of c u (?L - 1) (state_after c u (?L - 1)))
      (remainingMembers (state_after c u (Suc (?L - 1))))"
    using ne by (intro run_nth [OF pos]) simp
  finally have "remainingMembersAfter (last (sched (run c u))) =
      remainingMembers (state_after c u (Suc (?L - 1)))"
    by (simp add: schedule_entry_of_def del: state_after.simps)
  also have "Suc (?L - 1) = ?L"
    using ne by simp
  finally have rma: "remainingMembersAfter (last (sched (run c u))) = Fin (of_int z)"
    using run z by simp
  have served: "totalMembersServed ?r = Fin (of_int (totalMembers c) - of_int z)"
    by (simp add: result_fields [OF pos] rma)
  have "withdrawals_sum (sched (run c u)) = withdrawals_sum (sched (state_after c u ?L))"
    using run by simp
  also have "\<dots> = jsub (Fin (of_int (totalMembers c))) (remainingMembers (state_after c u ?L))"
    by (rule withdrawals_sum_state_after [OF pos wl])
  also have "\<dots> = Fin (of_int (totalMembers c) - of_int z)"
    using run z by simp
  finally have sum: "withdrawals_sum (withdrawalSchedule ?r) =
      Fin (of_int (totalMembers c) - of_int z)"
    by (simp add: result_fields [OF pos])
  have "calculateChitDetails c u = Inr ?r"
    by (rule result_exists [OF pos])
  moreover have "is_fin (totalMembersServed ?r)"
    by (simp add: served)
  moreover have "jeq (withdrawals_sum (withdrawalSchedule ?r)) (totalMembersServed ?r)"
    by (simp add: served sum)
  moreover have "jle (totalMembersServed ?r) (Fin (of_int (totalMembers c)))"
    using z(2) by (simp add: served)
  ultimately show ?thesis
    by blast
qed

subsection \<open>The constants of the solver\<close>

lemmas dbl_eval = dbl_def exponent_of_def two_to_def round_even_def Let_def bits.simps

lemma initialRate_eq: "initialRate = Fin (5764607523034235 / 576460752303423488)"
  by (simp add: initialRate_def dbl_eval)

lemma lowerBound_eq: "lowerBound = Fin (- (4458563631096791 / 4503599627370496))"
  by (simp add: lowerBound_def dbl_eval)

lemma defaultTolerance_eq:
  "defaultTolerance = Fin (944473296573929 / 9444732965739290427392)"
  by (simp add: defaultTolerance_def dbl_eval)

subsection \<open>The rates the solver visits\<close>

lemma rate_ok_clamp:
  "rate_ok (if jlt newRate lowerBound then Fin (- (1 / 2))
            else if jgt newRate (Fin 10) then Fin 1 else newRate)"
  by (cases newRate) (auto simp: jgt_def lowerBound_eq)

lemma newton_None:
  assumes "\<And>rate. rate_ok rate \<Longrightarrow> \<not> jlt (jabs (npv_at cf rate)) tol"
  shows "rate_ok rate \<Longrightarrow> newton cf tol k rate = None"
proof (induction k arbitrary: rate)
  case 0
  show ?case by simp
next
  case (Suc k)
  from Suc.prems have "\<not> jlt (jabs (npv_at cf rate)) tol"
    by (rule assms)
  then show ?case
    using Suc.IH [OF rate_ok_clamp] by (simp add: Let_def)
qed

lemma bisection_None:
  assumes "\<And>rate. rate_ok rate \<Longrightarrow> \<not> jlt (jabs (npv_at cf rate)) tol"
  shows "- (99 / 100) \<le> l \<Longrightarrow> l \<le> h \<Longrightarrow> h \<le> 10
         \<Longrightarrow> bisection cf tol k (Fin l) (Fin h) = None"
proof (induction k arbitrary: l h)
  case 0
  show ?case by simp
next
  case (Suc k)
  let ?m = "(l + h) / 2"
  from Suc.prems have m: "- (99 / 100) \<le> ?m" "l \<le> ?m" "?m \<le> h" "?m \<le> 10"
    by simp_all
  then have "rate_ok (Fin ?m)"
    by simp
  then have "\<not> jlt (jabs (npv_at cf (Fin ?m))) tol"
    by (rule assms)
  then show ?case
    using Suc.IH [OF m(1) m(3) Suc.prems(3)] Suc.IH [OF Suc.prems(1) m(2) m(4)]
    by (simp add: Let_def)
qed

text \<open>If no visited rate has a small net present value, neither loop returns.\<close>

lemma calculateIRR_None:
  assumes "\<And>rate. rate_ok rate \<Longrightarrow> \<not> jlt (jabs (npv_at cf rate)) tol"
  shows "calculateIRR cf k tol = None"
proof -
  have "newton cf tol k initialRate = None"
    by (rule newton_None [OF assms]) (simp_all add: initialRate_eq)
  moreover have "bisection cf tol k lowerBound (Fin 10) = None"
    unfolding lowerBound_eq by (rule bisection_None [OF assms]) simp_all
  ultimately show ?thesis
    by (simp add: calculateIRR_def)
qed

subsection \<open>The net present value of outflows only\<close>

lemma jpow_Fin [simp]: "jpow (Fin a) n = Fin (a ^ n)"
  by (cases n) simp_all

lemma negative_cases: "jlt x (Fin 0) \<Longrightarrow> (\<exists>a. x = Fin a \<and> a < 0) \<or> x = NInf"
  by (cases x) simp_all

lemma outflow_term:
  assumes "jlt x (Fin 0)" and "rate_ok rate"
  shows "jdiv x (jpow (jadd (Fin 1) rate) n) = NaN
       \<or> jlt (jdiv x (jpow (jadd (Fin 1) rate) n)) (Fin 0)"
proof (cases rate)
  case (Fin q)
  define p where "p = (1 + q) ^ n"
  from Fin assms(2) have "0 < 1 + q"
    by simp
  then have p: "0 < p"
    unfolding p_def by (rule zero_less_power)
  have base: "jpow (jadd (Fin 1) rate) n = Fin p"
    by (simp add: Fin p_def)
  from negative_cases [OF assms(1)] show ?thesis
  proof
    assume "\<exists>a. x = Fin a \<and> a < 0"
    then obtain a where "x = Fin a" "a < 0"
      by blast
    with p show ?thesis
      unfolding base by (simp add: divide_neg_pos)
  next
    assume "x = NInf"
    with p show ?thesis
      unfolding base by simp
  qed
next
  case NaN
  then show ?thesis
    using negative_cases [OF assms(1)] by (cases n) auto
qed (use assms(2) in simp_all)

lemma outflow_sum_step:
  assumes "y = NaN \<or> jle y x0" and "t = NaN \<or> jlt t (Fin 0)" and "jlt x0 (Fin 0)"
  shows "jadd y t = NaN \<or> jle (jadd y t) x0"
  using assms negative_cases [OF assms(3)]
  by (cases y; cases t) (auto simp: jle_def jeq_def)

lemma outflow_partial_sums:
  assumes neg: "\<forall>x\<in>set cf. jlt x (Fin 0)" and rate: "rate_ok rate"
    and n: "0 < n" "n \<le> length cf"
  shows "foldl (\<lambda>npv t. jadd npv (jdiv (cf ! t) (jpow (jadd (Fin 1) rate) t))) (Fin 0) [0..<n] = NaN
       \<or> jle (foldl (\<lambda>npv t. jadd npv (jdiv (cf ! t) (jpow (jadd (Fin 1) rate) t))) (Fin 0) [0..<n])
            (cf ! 0)"
  using n
proof (induction n)
  case 0
  then show ?case by simp
next
  case (Suc n)
  let ?f = "\<lambda>npv t. jadd npv (jdiv (cf ! t) (jpow (jadd (Fin 1) rate) t))"
  from Suc.prems have "cf ! 0 \<in> set cf"
    by (intro nth_mem) auto
  with neg have x0: "jlt (cf ! 0) (Fin 0)"
    by blast
  show ?case
  proof (cases n)
    case 0
    have "jadd (Fin 0) (jdiv (cf ! 0) (Fin 1)) = cf ! 0"
      using negative_cases [OF x0] by auto
    then show ?thesis
      using 0 negative_cases [OF x0] by (auto simp: jle_def jeq_def)
  next
    case (Suc j)
    with Suc.prems Suc.IH have IH: "foldl ?f (Fin 0) [0..<n] = NaN
        \<or> jle (foldl ?f (Fin 0) [0..<n]) (cf ! 0)"
      by simp
    from Suc.prems have "jlt (cf ! n) (Fin 0)"
      using neg by (simp add: Suc_le_eq)
    then have "jdiv (cf ! n) (jpow (jadd (Fin 1) rate) n) = NaN
        \<or> jlt (jdiv (cf ! n) (jpow (jadd (Fin 1) rate) n)) (Fin 0)"
      using rate by (rule outflow_term)
    with IH have "jadd (foldl ?f (Fin 0) [0..<n]) (jdiv (cf ! n) (jpow (jadd (Fin 1) rate) n)) = NaN
        \<or> jle (jadd (foldl ?f (Fin 0) [0..<n]) (jdiv (cf ! n) (jpow (jadd (Fin 1) rate) n)))
             (cf ! 0)"
      using x0 by (rule outflow_sum_step)
    then show ?thesis
      by simp
  qed
qed

lemma outflow_npv_not_small:
  assumes neg: "\<forall>x\<in>set cf. jlt x (Fin 0)" and ne: "cf \<noteq> []"
    and first: "\<not> jlt (jabs (hd cf)) tol"
    and rate: "rate_ok rate"
  shows "\<not> jlt (jabs (npv_at cf rate)) tol"
proof -
  from ne have len: "0 < length cf"
    by simp
  from ne have hd: "hd cf = cf ! 0"
    by (simp add: hd_conv_nth)
  from ne neg have x0: "jlt (cf ! 0) (Fin 0)"
    by simp
  have "npv_at cf rate = NaN \<or> jle (npv_at cf rate) (cf ! 0)"
    unfolding npv_at_def by (rule outflow_partial_sums [OF neg rate len]) simp
  then show ?thesis
    using first negative_cases [OF x0] unfolding hd
    by (cases "npv_at cf rate"; cases tol) (auto simp: jle_def jeq_def)
qed

subsection \<open>Changing the sign of every cash flow\<close>

lemma jneg_jneg [simp]: "jneg (jneg x) = x"
  by (cases x) simp_all

lemma jadd_jneg: "jadd (jneg a) (jneg b) = jneg (jadd a b)"
  by (cases a; cases b) simp_all

lemma jdiv_jneg_left: "jdiv (jneg a) b = jneg (jdiv a b)"
  by (cases a; cases b) auto

lemma jabs_jneg [simp]: "jabs (jneg a) = jabs a"
  by (cases a) simp_all

lemma foldl_npv_jneg:
  assumes "\<forall>t\<in>set ts. t < length cf"
  shows "foldl (\<lambda>npv t. jadd npv (jdiv (map jneg cf ! t) (jpow b t))) (jneg acc) ts =
         jneg (foldl (\<lambda>npv t. jadd npv (jdiv (cf ! t) (jpow b t))) acc ts)"
  using assms
proof (induction ts arbitrary: acc)
  case Nil
  show ?case by simp
next
  case (Cons t ts)
  then have "jadd (jneg acc) (jdiv (map jneg cf ! t) (jpow b t)) =
      jneg (jadd acc (jdiv (cf ! t) (jpow b t)))"
    by (simp add: jdiv_jneg_left jadd_jneg)
  with Cons show ?case
    by simp
qed

lemma npv_at_jneg: "npv_at (map jneg cf) rate = jneg (npv_at cf rate)"
  using foldl_npv_jneg [of "[0..<length cf]" cf "jadd (Fin 1) rate" "Fin 0"]
  by (simp add: npv_at_def)

lemma jlt_jneg: "jlt (jneg x) (Fin 0) = jgt x (Fin 0)"
  by (cases x) (simp_all add: jgt_def)

subsection \<open>What a returned rate satisfies\<close>

lemma newton_sound:
  "rate_ok rate \<Longrightarrow> newton cf tol k rate = Some v
   \<Longrightarrow> rate_ok v \<and> jlt (jabs (npv_at cf v)) tol"
proof (induction k arbitrary: rate)
  case 0
  then show ?case by simp
next
  case (Suc k)
  show ?case
  proof (cases "jlt (jabs (npv_at cf rate)) tol")
    case True
    with Suc.prems show ?thesis
      by (simp add: Let_def)
  next
    case False
    with Suc.prems(2) have "newton cf tol k
        (if jlt (jsub rate (jdiv (npv_at cf rate) (dnpv_at cf rate))) lowerBound
         then Fin (- (1 / 2))
         else if jgt (jsub rate (jdiv (npv_at cf rate) (dnpv_at cf rate))) (Fin 10) then Fin 1
         else jsub rate (jdiv (npv_at cf rate) (dnpv_at cf rate))) = Some v"
      by (simp add: Let_def split: if_splits)
    then show ?thesis
      by (rule Suc.IH [OF rate_ok_clamp])
  qed
qed

lemma bisection_sound:
  "- (99 / 100) \<le> l \<Longrightarrow> l \<le> h \<Longrightarrow> h \<le> 10
   \<Longrightarrow> bisection cf tol k (Fin l) (Fin h) = Some v
   \<Longrightarrow> \<exists>x. v = Fin x \<and> - (99 / 100) \<le> x \<and> x \<le> 10 \<and> jlt (jabs (npv_at cf v)) tol"
proof (induction k arbitrary: l h)
  case 0
  then show ?case by simp
next
  case (Suc k)
  let ?m = "(l + h) / 2"
  from Suc.prems have m: "- (99 / 100) \<le> ?m" "l \<le> ?m" "?m \<le> h" "?m \<le> 10"
    by simp_all
  show ?case
  proof (cases "jlt (jabs (npv_at cf (Fin ?m))) tol")
    case True
    with Suc.prems(4) have "v = Fin ?m"
      by (simp add: Let_def)
    with True m(1,4) show ?thesis
      by (intro exI [of _ ?m]) (simp only: simp_thms)
  next
    case False
    with Suc.prems(4) have "bisection cf tol k (Fin ?m) (Fin h) = Some v
        \<or> bisection cf tol k (Fin l) (Fin ?m) = Some v"
      by (simp add: Let_def split: if_splits)
    then show ?thesis
      using Suc.IH [OF m(1) m(3) Suc.prems(3)] Suc.IH [OF Suc.prems(1) m(2) m(4)]
      by blast
  qed
qed

subsection \<open>The round-trip cash flows\<close>

lemma round_trip_npv:
  "1 + x \<noteq> 0 \<Longrightarrow>
   npv_at [Fin (- 100), Fin 0, Fin 0, Fin c] (Fin x) = Fin (c / (1 + x) ^ 3 - 100)"
  by (simp add: npv_at_def numeral_eq_Suc)

lemma round_trip_npv_NaN: "npv_at [Fin (- 100), Fin 0, Fin 0, Fin c] NaN = NaN"
  by (simp add: npv_at_def numeral_eq_Suc)

subsection \<open>Arithmetic of the round trip\<close>

lemma cube_diff: "(R::rat) ^ 3 - u ^ 3 = (R - u) * (R ^ 2 + R * u + u ^ 2)"
  by (simp add: power3_eq_cube power2_eq_square algebra_simps)

lemma value_as_quotient:
  "(0::rat) < u \<Longrightarrow> 100 * R ^ 3 / u ^ 3 - 100 = 100 * (R ^ 3 - u ^ 3) / u ^ 3"
  by (simp add: field_simps)

lemma value_pos_iff:
  assumes "(0::rat) < u" and "0 < R"
  shows "(0 < 100 * R ^ 3 / u ^ 3 - 100) = (u < R)"
proof -
  from assms(1) have u3: "0 < u ^ 3"
    by simp
  have "(0 < 100 * R ^ 3 / u ^ 3 - 100) = (u ^ 3 < R ^ 3)"
    using u3 by (simp add: field_simps)
  also have "\<dots> = (u < R)"
  proof
    assume "u ^ 3 < R ^ 3"
    then show "u < R"
      using assms(2) by (intro power_less_imp_less_base [of u 3 R]) simp_all
  next
    assume "u < R"
    then show "u ^ 3 < R ^ 3"
      using assms(1) by (intro power_strict_mono) simp_all
  qed
  finally show ?thesis .
qed

lemma value_neg_iff:
  assumes "(0::rat) < u" and "0 < R"
  shows "(100 * R ^ 3 / u ^ 3 - 100 < 0) = (R < u)"
proof -
  from assms(1) have u3: "0 < u ^ 3"
    by simp
  have "(100 * R ^ 3 / u ^ 3 - 100 < 0) = (R ^ 3 < u ^ 3)"
    using u3 by (simp add: field_simps)
  also have "\<dots> = (R < u)"
  proof
    assume "R ^ 3 < u ^ 3"
    then show "R < u"
      using assms(1) by (intro power_less_imp_less_base [of R 3 u]) simp_all
  next
    assume "R < u"
    then show "R ^ 3 < u ^ 3"
      using assms(2) by (intro power_strict_mono) simp_all
  qed
  finally show ?thesis .
qed

text \<open>
  With \<open>u = 1 + rate\<close> and \<open>R = 1 + r\<close>, the net present value of the round-trip cash
  flows is \<open>100 * R^3 / u^3 - 100\<close>. A value below the tolerance forces \<open>u\<close> to be near
  \<open>R\<close>, and a midpoint within \<open>1e-12\<close> of \<open>R\<close> has a value of at most \<open>7e-8\<close>, which
  is below the default tolerance.
\<close>

lemma close_to_root:
  assumes u: "(0::rat) < u" "u \<le> 11" and R: "0 < R"
    and small: "\<bar>100 * R ^ 3 / u ^ 3 - 100\<bar> < 1 / 10000000"
  shows "\<bar>u - R\<bar> < 1 / 10000000"
proof -
  from u(1) have u3: "0 < u ^ 3" and u2: "0 < u ^ 2"
    by simp_all
  define D where "D = R ^ 3 - u ^ 3"
  have "\<bar>100 * D / u ^ 3\<bar> < 1 / 10000000"
    using small unfolding D_def by (simp only: value_as_quotient [OF u(1)])
  then have "100 * \<bar>D\<bar> / u ^ 3 < 1 / 10000000"
    using u3 by (simp add: abs_mult abs_divide)
  then have "\<bar>D\<bar> < u ^ 3 / 1000000000"
    using u3 by (simp add: field_simps)
  then have c: "\<bar>R ^ 3 - u ^ 3\<bar> < u ^ 3 / 1000000000"
    unfolding D_def .
  have "u ^ 2 \<le> R ^ 2 + R * u + u ^ 2"
    using u(1) R by simp
  then have "\<bar>R - u\<bar> * u ^ 2 \<le> \<bar>R - u\<bar> * (R ^ 2 + R * u + u ^ 2)"
    by (intro mult_left_mono) simp_all
  also have "\<dots> = \<bar>R ^ 3 - u ^ 3\<bar>"
  proof -
    have "0 \<le> R ^ 2 + R * u + u ^ 2"
      using u(1) R by simp
    then show ?thesis
      by (simp add: cube_diff abs_mult)
  qed
  finally have "\<bar>R - u\<bar> * u ^ 2 < u ^ 3 / 1000000000"
    using c by simp
  then have "\<bar>R - u\<bar> * u ^ 2 < (u / 1000000000) * u ^ 2"
    by (simp add: power3_eq_cube power2_eq_square)
  then have "\<bar>R - u\<bar> < u / 1000000000"
    using u2 by (simp only: mult_less_cancel_right_pos)
  also have "\<dots> \<le> 11 / 1000000000"
    using u(2) by simp
  finally show ?thesis
    by (simp add: abs_minus_commute)
qed

lemma fine_interval:
  assumes u: "(1::rat) / 100 \<le> u" and R: "0 < R" "R \<le> 2 * u"
    and d: "\<bar>u - R\<bar> \<le> 1 / 1000000000000"
  shows "\<bar>100 * R ^ 3 / u ^ 3 - 100\<bar> \<le> 7 / 100000000"
proof -
  from u have u0: "0 < u"
    by simp
  then have u3: "0 < u ^ 3" and u2: "0 < u ^ 2"
    by simp_all
  have q: "0 \<le> R ^ 2 + R * u + u ^ 2"
    using u0 R by simp
  have "R ^ 2 \<le> (2 * u) ^ 2"
    using R by (intro power_mono) simp_all
  moreover have "R * u \<le> (2 * u) * u"
    using R u0 by (intro mult_right_mono) simp_all
  ultimately have b: "R ^ 2 + R * u + u ^ 2 \<le> 7 * u ^ 2"
    by (simp add: power2_eq_square)
  have "\<bar>R ^ 3 - u ^ 3\<bar> = \<bar>R - u\<bar> * (R ^ 2 + R * u + u ^ 2)"
    using q by (simp add: cube_diff abs_mult)
  also have "\<dots> \<le> (1 / 1000000000000) * (7 * u ^ 2)"
    using d b q by (intro mult_mono) (simp_all add: abs_minus_commute)
  finally have c: "\<bar>R ^ 3 - u ^ 3\<bar> \<le> 7 * u ^ 2 / 1000000000000"
    by simp
  define D where "D = R ^ 3 - u ^ 3"
  have "\<bar>100 * R ^ 3 / u ^ 3 - 100\<bar> = \<bar>100 * D / u ^ 3\<bar>"
    unfolding D_def by (simp only: value_as_quotient [OF u0])
  also have "\<dots> = 100 * \<bar>D\<bar> / u ^ 3"
    using u3 by (simp add: abs_mult abs_divide)
  also have "\<dots> = 100 * \<bar>R ^ 3 - u ^ 3\<bar> / u ^ 3"
    unfolding D_def ..
  also have "\<dots> \<le> 100 * (7 * u ^ 2 / 1000000000000) / u ^ 3"
    using c u3 by (intro divide_right_mono mult_left_mono) simp_all
  also have "\<dots> = 7 / (10000000000 * u)"
    using u0 by (simp add: power3_eq_cube power2_eq_square)
  also have "\<dots> \<le> 7 / (10000000000 * (1 / 100))"
    using u by (intro divide_left_mono mult_left_mono) simp_all
  also have "\<dots> = 7 / 100000000"
    by simp
  finally show ?thesis .
qed

subsection \<open>Bisection on the round-trip cash flows\<close>

lemma bisection_converges:
  fixes R tol :: rat
  assumes R: "1 / 100 \<le> R" and tol: "7 / 100000000 < tol"
  shows "- (99 / 100) \<le> l \<Longrightarrow> h \<le> 10 \<Longrightarrow> 1 + l \<le> R \<Longrightarrow> R \<le> 1 + h
         \<Longrightarrow> h - l \<le> 2 / 1000000000000 * 2 ^ k
         \<Longrightarrow> \<exists>v. bisection [Fin (- 100), Fin 0, Fin 0, Fin (100 * R ^ 3)]
                  (Fin tol) (Suc k) (Fin l) (Fin h) = Some v"
proof (induction k arbitrary: l h)
  case 0
  let ?m = "(l + h) / 2"
  let ?u = "1 + ?m"
  from 0 have w: "h - l \<le> 2 / 1000000000000"
    by simp
  from 0(1,3,4) have u: "1 / 100 \<le> ?u"
    by (simp add: field_simps)
  from 0(1,3,4) have "0 < ?u"
    by (simp add: field_simps)
  then have nz: "1 + ?m \<noteq> 0"
    by (metis less_irrefl)
  have "?u - R \<le> 1 / 1000000000000" and "- (?u - R) \<le> 1 / 1000000000000"
    using 0(3,4) w by (simp_all add: field_simps)
  then have "\<bar>?u - R\<bar> \<le> 1 / 1000000000000"
    by (simp only: abs_le_iff)
  moreover have "R \<le> 2 * ?u"
    using 0(1,4) by (simp add: field_simps)
  moreover have "0 < R"
    using R by simp
  ultimately have "\<bar>100 * R ^ 3 / ?u ^ 3 - 100\<bar> \<le> 7 / 100000000"
    using u by (intro fine_interval)
  with tol have "\<bar>100 * R ^ 3 / ?u ^ 3 - 100\<bar> < tol"
    by simp
  then have "jlt (jabs (npv_at [Fin (- 100), Fin 0, Fin 0, Fin (100 * R ^ 3)] (Fin ?m)))
      (Fin tol)"
    by (simp only: round_trip_npv [OF nz] jabs.simps jlt.simps)
  then show ?case
    by (simp add: Let_def)
next
  case (Suc k)
  let ?cf = "[Fin (- 100), Fin 0, Fin 0, Fin (100 * R ^ 3)]"
  let ?m = "(l + h) / 2"
  let ?u = "1 + ?m"
  let ?fm = "100 * R ^ 3 / ?u ^ 3 - 100"
  let ?fl = "100 * R ^ 3 / (1 + l) ^ 3 - 100"
  from R have R0: "0 < R"
    by simp
  from Suc.prems(3,4) have lh: "l \<le> h"
    by linarith
  from Suc.prems(1) lh have u: "0 < ?u" and ul: "0 < 1 + l"
    by (simp_all add: field_simps)
  then have nz: "1 + ?m \<noteq> 0" "1 + l \<noteq> 0"
    by (metis less_irrefl)+
  from Suc.prems(5) have half: "h - ?m \<le> 2 / 1000000000000 * 2 ^ k"
    "?m - l \<le> 2 / 1000000000000 * 2 ^ k"
    by (simp_all add: field_simps)
  from Suc.prems(1,2) lh have mr: "- (99 / 100) \<le> ?m" "?m \<le> 10"
    by (simp_all add: field_simps)
  have fm: "npv_at ?cf (Fin ?m) = Fin ?fm" and fl: "npv_at ?cf (Fin l) = Fin ?fl"
    by (simp_all only: round_trip_npv [OF nz(1)] round_trip_npv [OF nz(2)])
  have fl0: "0 \<le> ?fl"
    using value_neg_iff [OF ul R0] Suc.prems(3) by simp
  show ?case
  proof (cases "jlt (jabs (npv_at ?cf (Fin ?m))) (Fin tol)")
    case True
    then show ?thesis
      by (simp add: Let_def)
  next
    case False
    show ?thesis
    proof (cases "0 < ?fl * ?fm")
      case True
      with fl0 have "0 < ?fm"
        by (simp add: zero_less_mult_iff)
      then have "?u < R"
        using value_pos_iff [OF u R0] by simp
      then have "1 + ?m \<le> R"
        by simp
      then have "\<exists>v. bisection ?cf (Fin tol) (Suc k) (Fin ?m) (Fin h) = Some v"
        using mr(1) Suc.prems(2,4) half(1) by (intro Suc.IH)
      moreover have "bisection ?cf (Fin tol) (Suc (Suc k)) (Fin l) (Fin h) =
          bisection ?cf (Fin tol) (Suc k) (Fin ?m) (Fin h)"
        using False True unfolding bisection.simps(2) [of _ _ "Suc k"]
        by (simp add: Let_def fm fl del: bisection.simps)
      ultimately show ?thesis
        by simp
    next
      case neg: False
      have "R \<le> ?u"
      proof (rule ccontr)
        assume "\<not> R \<le> ?u"
        then have "?u < R"
          by simp
        then have "0 < ?fm"
          using value_pos_iff [OF u R0] by simp
        with neg fl0 have "?fl = 0"
          by (simp add: zero_less_mult_iff)
        then have "\<not> 1 + l < R"
          using value_pos_iff [OF ul R0] by simp
        with \<open>?u < R\<close> lh show False
          by (simp add: field_simps)
      qed
      then have "\<exists>v. bisection ?cf (Fin tol) (Suc k) (Fin l) (Fin ?m) = Some v"
        using Suc.prems(1,3) mr(2) half(2) by (intro Suc.IH)
      moreover have "bisection ?cf (Fin tol) (Suc (Suc k)) (Fin l) (Fin h) =
          bisection ?cf (Fin tol) (Suc k) (Fin l) (Fin ?m)"
        using False neg unfolding bisection.simps(2) [of _ _ "Suc k"]
        by (simp add: Let_def fm fl del: bisection.simps)
      ultimately show ?thesis
        by simp
    qed
  qed
qed

subsection \<open>A root below the bracket\<close>

text \<open>
  The round-trip cash flows for a rate below \<open>low\<close>: the net present value is negative
  at every rate of the bracket. From \<open>-0.5\<close> the Newton-Raphson step leaves the bracket
  on the left and is clamped back to \<open>-0.5\<close>; bisection always continues with the upper
  half.
\<close>

lemma round_trip_dnpv:
  "1 + x \<noteq> 0 \<Longrightarrow>
   dnpv_at [Fin (- 100), Fin 0, Fin 0, Fin c] (Fin x) = Fin (- (3 * c / (1 + x) ^ 4))"
  by (simp add: dnpv_at_def numeral_eq_Suc jsub_def)

lemma newton_stays_at_clamp:
  fixes c tol :: rat
  assumes c: "1 / 100000 \<le> c" "c \<le> 1 / 1000" and tol: "tol \<le> 1 / 100000"
  shows "newton [Fin (- 100), Fin 0, Fin 0, Fin c] (Fin tol) k (Fin (- (1 / 2))) = None"
proof (induction k)
  case 0
  show ?case by simp
next
  case (Suc k)
  let ?cf = "[Fin (- 100), Fin 0, Fin 0, Fin c]"
  have n: "npv_at ?cf (Fin (- (1 / 2))) = Fin (8 * c - 100)"
    by (simp add: round_trip_npv power_divide)
  have d: "dnpv_at ?cf (Fin (- (1 / 2))) = Fin (- (48 * c))"
    by (simp add: round_trip_dnpv power_divide)
  have n1: "\<not> jlt (jabs (Fin (8 * c - 100))) (Fin tol)"
    using c tol by simp
  have d1: "\<not> jlt (jabs (Fin (- (48 * c)))) (Fin tol)"
    using c tol by simp
  have c0: "- (48 * c) \<noteq> 0"
    using c by simp
  have "1 \<le> (100 - 8 * c) / (48 * c)"
    using c by (simp add: field_simps)
  moreover have "(8 * c - 100) / (- (48 * c)) = (100 - 8 * c) / (48 * c)"
    using c by (simp add: field_simps)
  ultimately have "- (1 / 2) - (8 * c - 100) / (- (48 * c)) < - (4458563631096791 / 4503599627370496)"
    by simp
  then have s: "jlt (jsub (Fin (- (1 / 2))) (jdiv (Fin (8 * c - 100)) (Fin (- (48 * c))))) lowerBound"
    using c0 unfolding lowerBound_eq by (simp del: minus_mult_minus)
  show ?case
    unfolding newton.simps(2) [of _ _ k] Let_def n d
    using n1 d1 s Suc.IH by (simp only: if_True if_False)
qed

lemma dbl_ten_thousandth: "dbl (1 / 10000) = 7378697629483821 / 73786976294838206464"
  by (simp add: dbl_eval)

lemma newton_first_step:
  "newton [Fin (- 100), Fin 0, Fin 0, Fin (1 / 10000)] defaultTolerance (Suc k) initialRate =
     newton [Fin (- 100), Fin 0, Fin 0, Fin (1 / 10000)] defaultTolerance k (Fin (- (1 / 2)))"
  unfolding newton.simps(2) [of _ _ k] Let_def initialRate_eq lowerBound_eq defaultTolerance_eq
  by (simp add: round_trip_npv round_trip_dnpv jgt_def power_divide)

lemma newton_first_step_double:
  "newton [Fin (- 100), Fin 0, Fin 0, Fin (7378697629483821 / 73786976294838206464)]
       defaultTolerance (Suc k) initialRate =
     newton [Fin (- 100), Fin 0, Fin 0, Fin (7378697629483821 / 73786976294838206464)]
       defaultTolerance k (Fin (- (1 / 2)))"
  unfolding newton.simps(2) [of _ _ k] Let_def initialRate_eq lowerBound_eq defaultTolerance_eq
  by (simp add: round_trip_npv round_trip_dnpv jgt_def power_divide)

lemma bisection_root_below:
  fixes c lo tol l :: rat
  assumes c: "0 < c" "c \<le> 1" and lo: "- 1 < lo" "c < 100 * (1 + lo) ^ 3" and tol: "tol \<le> 1"
  shows "lo \<le> l \<Longrightarrow> l \<le> 10
         \<Longrightarrow> bisection [Fin (- 100), Fin 0, Fin 0, Fin c] (Fin tol) k (Fin l) (Fin 10) = None"
proof (induction k arbitrary: l)
  case 0
  show ?case by simp
next
  case (Suc k)
  let ?cf = "[Fin (- 100), Fin 0, Fin 0, Fin c]"
  let ?m = "(l + 10) / 2"
  from Suc.prems lo(1) have m: "lo \<le> ?m" "?m \<le> 10" "1 \<le> 1 + ?m"
    by (simp_all add: field_simps)
  from Suc.prems lo(1) have ul: "0 < 1 + l" "0 < 1 + lo"
    by simp_all
  from m(3) have um: "0 < 1 + ?m"
    by (rule less_le_trans [OF zero_less_one])
  have nz: "1 + ?m \<noteq> 0" "1 + l \<noteq> 0"
    using um ul by (metis less_irrefl)+
  have fm: "npv_at ?cf (Fin ?m) = Fin (c / (1 + ?m) ^ 3 - 100)"
    and fl: "npv_at ?cf (Fin l) = Fin (c / (1 + l) ^ 3 - 100)"
    by (simp_all only: round_trip_npv [OF nz(1)] round_trip_npv [OF nz(2)])
  have "1 \<le> (1 + ?m) ^ 3"
    using m(3) by (rule one_le_power)
  then have "c / (1 + ?m) ^ 3 \<le> c / 1"
    using c(1) um by (intro divide_left_mono) simp_all
  with c(2) have vm: "c / (1 + ?m) ^ 3 - 100 \<le> - 99"
    by simp
  have "(1 + lo) ^ 3 \<le> (1 + l) ^ 3"
    using Suc.prems(1) ul(2) by (intro power_mono) simp_all
  with lo(2) have "c < 100 * (1 + l) ^ 3"
    by simp
  then have vl: "c / (1 + l) ^ 3 - 100 < 0"
    using ul(1) by (simp add: field_simps)
  have small: "\<not> jlt (jabs (Fin (c / (1 + ?m) ^ 3 - 100))) (Fin tol)"
    using vm tol by simp
  have "0 < (c / (1 + l) ^ 3 - 100) * (c / (1 + ?m) ^ 3 - 100)"
    using vl vm by (intro mult_neg_neg) simp_all
  then have prod: "jgt (jmul (Fin (c / (1 + l) ^ 3 - 100)) (Fin (c / (1 + ?m) ^ 3 - 100))) (Fin 0)"
    by (simp add: jgt_def)
  have "bisection ?cf (Fin tol) (Suc k) (Fin l) (Fin 10) = bisection ?cf (Fin tol) k (Fin ?m) (Fin 10)"
    unfolding bisection.simps(2) [of _ _ k] Let_def
    using small prod by (simp add: fm fl del: bisection.simps)
  then show ?case
    using Suc.IH [OF m(1,2)] by simp
qed

lemma root_below_gives_no_rate:
  fixes c :: rat
  assumes b: "1 / 100000 \<le> c" "c \<le> 1 / 1000"
      "c < 100 * (1 + - (4458563631096791 / 4503599627370496)) ^ 3"
    and first: "newton [Fin (- 100), Fin 0, Fin 0, Fin c] defaultTolerance (Suc 99) initialRate =
      newton [Fin (- 100), Fin 0, Fin 0, Fin c] defaultTolerance 99 (Fin (- (1 / 2)))"
  shows "calculateIRR_default [Fin (- 100), Fin 0, Fin 0, Fin c] = None"
proof -
  let ?cf = "[Fin (- 100), Fin 0, Fin 0, Fin c]"
  from b have c: "0 < c" "c \<le> 1"
    by simp_all
  have "newton ?cf defaultTolerance 99 (Fin (- (1 / 2))) = None"
    unfolding defaultTolerance_eq by (rule newton_stays_at_clamp [OF b(1,2)]) simp
  with first have n: "newton ?cf defaultTolerance 100 initialRate = None"
    by (simp del: newton.simps)
  have "bisection ?cf defaultTolerance 100 lowerBound (Fin 10) = None"
    unfolding defaultTolerance_eq lowerBound_eq
    by (rule bisection_root_below [OF c _ b(3)]) simp_all
  with n show ?thesis
    by (simp add: calculateIRR_default_def calculateIRR_def)
qed

subsection \<open>The settlement month in exact arithmetic\<close>

text \<open>
  With exact arithmetic and positive withdrawal amounts (\<open>firstWithdrawal > 0\<close>,
  \<open>monthlyIncrement \<ge> 0\<close>), the recomputed pool of a settlement month is exactly what
  the remaining members need: an entry flagged \<open>isLastMonth\<close> is the last entry, its
  \<open>actualWithdrawals\<close> is the number of members remaining at the start of its period,
  and its \<open>remainingMembersAfter\<close> is 0. This is what the recomputation is written to
  achieve; the next subsection shows that the rounded operations of the program miss it.
\<close>

lemma exact_settlement_month_is_last:
  assumes "calculateChitDetails c u = Inr r"
    and "0 < firstWithdrawal c" and "0 \<le> monthlyIncrement c"
    and "n < length (withdrawalSchedule r)"
    and "isLastMonth (withdrawalSchedule r ! n)"
  shows "Suc n = length (withdrawalSchedule r)
       \<and> actualWithdrawals (withdrawalSchedule r ! n) =
           (if n = 0 then Fin (of_int (totalMembers c))
            else remainingMembersAfter (withdrawalSchedule r ! (n - 1)))
       \<and> remainingMembersAfter (withdrawalSchedule r ! n) = Fin 0"
proof -
  from assms(4) have ne: "withdrawalSchedule r \<noteq> []"
    by auto
  note pos = schedule_of_result(1) [OF assms(1) ne]
  note ws = schedule_of_result(2) [OF assms(1) ne]
  from assms(4) have n: "n < length (sched (run c u))"
    by (simp add: ws)
  have w: "\<And>i. 0 < withdrawal_at c i"
    using assms(2,3) by (rule withdrawal_at_pos)
  then have "\<forall>i<n. withdrawal_at c i \<noteq> 0"
    by (simp add: less_imp_neq [THEN not_sym])
  then obtain z k d where st: "remainingMembers (state_after c u n) = Fin (of_int z)"
    "carryOverPool (state_after c u n) = Fin k" "loanRepaymentDue (state_after c u n) = Fin d"
    using state_after_integral [OF pos, of n u] by blast
  have e: "withdrawalSchedule r ! n =
      schedule_entry_of n (period_of c u n (state_after c u n))
        (remainingMembers (state_after c u (Suc n)))"
    unfolding ws by (rule run_nth [OF pos n])
  with assms(5) have l: "p_isLastMonth (period_of c u n (state_after c u n))"
    by (simp add: schedule_entry_of_def)
  note sc = settlement_clears [OF st pos w l]
  have zero: "remainingMembersAfter (withdrawalSchedule r ! n) = Fin 0"
    using sc(2) by (simp add: e schedule_entry_of_def)
  have last: "Suc n = length (withdrawalSchedule r)"
  proof (rule ccontr)
    assume "Suc n \<noteq> length (withdrawalSchedule r)"
    with n have "Suc n < length (sched (run c u))"
      by (simp add: ws)
    then have "jgt (remainingMembers (state_after c u (Suc n))) (Fin 0)"
      by (rule run_continues [OF pos])
    with sc(2) show False
      by simp
  qed
  have start: "(if n = 0 then Fin (of_int (totalMembers c))
            else remainingMembersAfter (withdrawalSchedule r ! (n - 1))) =
          remainingMembers (state_after c u n)"
  proof (cases n)
    case 0
    then show ?thesis
      by (simp add: initial_state_def)
  next
    case (Suc j)
    with n have "j < length (sched (run c u))"
      by simp
    then show ?thesis
      using Suc by (simp add: ws run_nth [OF pos] schedule_entry_of_def)
  qed
  have "actualWithdrawals (withdrawalSchedule r ! n) = remainingMembers (state_after c u n)"
    using sc(1) by (simp add: e schedule_entry_of_def st)
  with start zero last show ?thesis
    by simp
qed

lemma exact_settlement_month_is_last_example:
  "calculateChitDetails
      \<lparr> totalMembers = 2, monthlyContribution = 100, firstWithdrawal = 50,
        monthlyIncrement = 0, commissionType = Monthly, commissionRate = 10,
        oneTimeCommission = 0, loanInterestRate = 2 \<rparr> 50 =
     Inr (projr (calculateChitDetails
      \<lparr> totalMembers = 2, monthlyContribution = 100, firstWithdrawal = 50,
        monthlyIncrement = 0, commissionType = Monthly, commissionRate = 10,
        oneTimeCommission = 0, loanInterestRate = 2 \<rparr> 50))
   \<and> 0 < length (withdrawalSchedule (projr (calculateChitDetails
      \<lparr> totalMembers = 2, monthlyContribution = 100, firstWithdrawal = 50,
        monthlyIncrement = 0, commissionType = Monthly, commissionRate = 10,
        oneTimeCommission = 0, loanInterestRate = 2 \<rparr> 50)))
   \<and> isLastMonth (withdrawalSchedule (projr (calculateChitDetails
      \<lparr> totalMembers = 2, monthlyContribution = 100, firstWithdrawal = 50,
        monthlyIncrement = 0, commissionType = Monthly, commissionRate = 10,
        oneTimeCommission = 0, loanInterestRate = 2 \<rparr> 50)) ! 0)
   \<and> Suc 0 = length (withdrawalSchedule (projr (calculateChitDetails
      \<lparr> totalMembers = 2, monthlyContribution = 100, firstWithdrawal = 50,
        monthlyIncrement = 0, commissionType = Monthly, commissionRate = 10,
        oneTimeCommission = 0, loanInterestRate = 2 \<rparr> 50)))
   \<and> actualWithdrawals (withdrawalSchedule (projr (calculateChitDetails
      \<lparr> totalMembers = 2, monthlyContribution = 100, firstWithdrawal = 50,
        monthlyIncrement = 0, commissionType = Monthly, commissionRate = 10,
        oneTimeCommission = 0, loanInterestRate = 2 \<rparr> 50)) ! 0) = Fin 2
   \<and> remainingMembersAfter (withdrawalSchedule (projr (calculateChitDetails
      \<lparr> totalMembers = 2, monthlyContribution = 100, firstWithdrawal = 50,
        monthlyIncrement = 0, commissionType = Monthly, commissionRate = 10,
        oneTimeCommission = 0, loanInterestRate = 2 \<rparr> 50)) ! 0) = Fin 0"
proof -
  let ?c = "\<lparr> totalMembers = 2, monthlyContribution = 100, firstWithdrawal = 50,
        monthlyIncrement = 0, commissionType = Monthly, commissionRate = 10,
        oneTimeCommission = 0, loanInterestRate = 2 \<rparr>"
  have pos: "0 < totalMembers ?c"
    by simp
  have h1: "calculateChitDetails ?c 50 = Inr (projr (calculateChitDetails ?c 50))"
    by (rule result_exists [OF pos])
  have h4: "0 < length (withdrawalSchedule (projr (calculateChitDetails ?c 50)))"
    and h5: "isLastMonth (withdrawalSchedule (projr (calculateChitDetails ?c 50)) ! 0)"
    unfolding result_fields(7) [OF pos] by (rule small_settlement)+
  from exact_settlement_month_is_last [OF h1 _ _ h4 h5] h1 h4 h5
  show ?thesis
    by simp
qed

text \<open>
  The settlement test also fires for a negative withdrawal amount, which the function
  does not reject: with a first withdrawal of -10 both periods are flagged, nobody is
  paid and both members remain.
\<close>

lemma negative_withdrawal_settlement:
  "\<not> isl (calculateChitDetails
            \<lparr> totalMembers = 2, monthlyContribution = 50, firstWithdrawal = - 10,
              monthlyIncrement = 0, commissionType = Monthly, commissionRate = 5,
              oneTimeCommission = 0, loanInterestRate = 2 \<rparr> 50)
   \<and> map isLastMonth (withdrawalSchedule (projr (calculateChitDetails
            \<lparr> totalMembers = 2, monthlyContribution = 50, firstWithdrawal = - 10,
              monthlyIncrement = 0, commissionType = Monthly, commissionRate = 5,
              oneTimeCommission = 0, loanInterestRate = 2 \<rparr> 50))) = [True, True]
   \<and> map actualWithdrawals (withdrawalSchedule (projr (calculateChitDetails
            \<lparr> totalMembers = 2, monthlyContribution = 50, firstWithdrawal = - 10,
              monthlyIncrement = 0, commissionType = Monthly, commissionRate = 5,
              oneTimeCommission = 0, loanInterestRate = 2 \<rparr> 50))) = [Fin 0, Fin 0]
   \<and> map remainingMembersAfter (withdrawalSchedule (projr (calculateChitDetails
            \<lparr> totalMembers = 2, monthlyContribution = 50, firstWithdrawal = - 10,
              monthlyIncrement = 0, commissionType = Monthly, commissionRate = 5,
              oneTimeCommission = 0, loanInterestRate = 2 \<rparr> 50))) = [Fin 2, Fin 2]"
proof -
  let ?c = "\<lparr> totalMembers = 2, monthlyContribution = 50, firstWithdrawal = - 10,
              monthlyIncrement = 0, commissionType = Monthly, commissionRate = 5,
              oneTimeCommission = 0, loanInterestRate = 2 \<rparr>"
  have pos: "0 < totalMembers ?c"
    by simp
  have np: "net_pool_of ?c = Fin 95"
    by (simp add: net_pool_of_def commission_of_def pool_of_def)
  have s0: "remainingMembers (state_after ?c 50 0) = Fin 2"
    "carryOverPool (state_after ?c 50 0) = Fin 0"
    "loanRepaymentDue (state_after ?c 50 0) = Fin 0"
    by (simp_all add: initial_state_def)
  have w0: "withdrawal_at ?c 0 \<noteq> 0"
    by (simp add: withdrawal_at_def)
  have s1: "remainingMembers (state_after ?c 50 (Suc 0)) = Fin 2"
    "carryOverPool (state_after ?c 50 (Suc 0)) = Fin 0"
    "loanRepaymentDue (state_after ?c 50 (Suc 0)) = Fin 0"
    unfolding state_after.simps(2) fin_body [OF s0 pos w0 np, of 50]
    by (simp_all add: withdrawal_at_def)
  have w1: "withdrawal_at ?c (Suc 0) \<noteq> 0"
    by (simp add: withdrawal_at_def)
  have s2: "remainingMembers (state_after ?c 50 (Suc (Suc 0))) = Fin 2"
    unfolding state_after.simps(2) [of _ _ "Suc 0"] fin_body(1) [OF s1 pos w1 np, of 50]
    by (simp add: withdrawal_at_def)
  have p0: "p_isLastMonth (period_of ?c 50 0 (state_after ?c 50 0))"
    "p_actualWithdrawals (period_of ?c 50 0 (state_after ?c 50 0)) = Fin 0"
    unfolding fin_period(1,3) [OF s0 pos w0 np, of 50]
    by (simp_all add: withdrawal_at_def)
  have p1: "p_isLastMonth (period_of ?c 50 (Suc 0) (state_after ?c 50 (Suc 0)))"
    "p_actualWithdrawals (period_of ?c 50 (Suc 0) (state_after ?c 50 (Suc 0))) = Fin 0"
    unfolding fin_period(1,3) [OF s1 pos w1 np, of 50]
    by (simp_all add: withdrawal_at_def)
  have r2: "run ?c 50 = state_after ?c 50 (Suc (Suc 0))"
    using s0(1) s1(1)
    by (intro run_eq_state_after) (simp_all add: less_Suc_eq del: state_after.simps)
  show ?thesis
    using result_fields(1) [OF pos, of 50] p0 p1
    unfolding result_fields(7) [OF pos] entries_of_two_periods [OF r2] s1(1) s2
    by (simp add: schedule_entry_of_def del: state_after.simps)
qed

subsection \<open>The settlement month in double precision\<close>

lemma pd_withdrawalAmount_eq:
  "p_withdrawalAmount (period_of_double c u i s) =
     dadd (Fin (firstWithdrawal c)) (dmul (Fin (monthlyIncrement c)) (Fin (of_nat i)))"
  by (simp add: period_of_double_def Let_def)

lemma pd_effectiveCarryOver_eq:
  "p_effectiveCarryOver (period_of_double c u i s) = dadd (carryOverPool s) (loanRepaymentDue s)"
  by (simp add: period_of_double_def Let_def)

lemma pd_isLastMonth_eq:
  "p_isLastMonth (period_of_double c u i s) =
     jlt (dmul (remainingMembers s) (p_withdrawalAmount (period_of_double c u i s)))
       (dadd (net_pool_of_double c) (p_effectiveCarryOver (period_of_double c u i s)))"
  by (simp add: period_of_double_def Let_def)

lemma pd_availablePool_eq:
  "p_availablePool (period_of_double c u i s) =
     (let v = period_of_double c u i s;
          e = p_effectiveCarryOver v;
          requiredNet = dsub (dmul (remainingMembers s) (p_withdrawalAmount v)) e
      in if p_isLastMonth v
         then (if jle requiredNet (Fin 0) then e
               else dadd (dsub (dmul (ddiv (dadd requiredNet (commission_of_double c))
                                        (Fin (of_int (totalMembers c))))
                                  (Fin (of_int (totalMembers c))))
                            (commission_of_double c)) e)
         else dadd (net_pool_of_double c) e)"
  by (simp add: period_of_double_def Let_def)

lemma pd_actualWithdrawals_eq:
  "p_actualWithdrawals (period_of_double c u i s) =
     jmin (jfloor (ddiv (p_availablePool (period_of_double c u i s))
                     (p_withdrawalAmount (period_of_double c u i s))))
       (remainingMembers s)"
  by (simp add: period_of_double_def Let_def)

text \<open>
  With 24 members, a contribution of 10102, a first withdrawal of 4996 and a monthly
  commission of 1 percent, the first month is a settlement month. In double precision the
  recomputed pool is 119903.99999999999 instead of 119904, the quotient by 4996 is
  23.999999999999996, and 23 of the 24 members are paid; in exact arithmetic all 24 are.
\<close>

lemma settlement_slip_in_double_precision:
  "remainingMembers (initial_state slipInputs) = Fin 24
   \<and> p_isLastMonth (period_of_double slipInputs 99 0 (initial_state slipInputs))
   \<and> p_availablePool (period_of_double slipInputs 99 0 (initial_state slipInputs)) =
       Fin (8239740138553343 / 68719476736)
   \<and> p_actualWithdrawals (period_of_double slipInputs 99 0 (initial_state slipInputs)) = Fin 23
   \<and> p_actualWithdrawals (period_of slipInputs 99 0 (initial_state slipInputs)) = Fin 24"
proof -
  let ?s = "initial_state slipInputs"
  let ?v = "period_of_double slipInputs 99 0 ?s"
  have r: "remainingMembers ?s = Fin 24"
    by (simp add: initial_state_def slipInputs_def)
  have pool: "pool_of_double slipInputs = Fin 242448"
    by (simp add: pool_of_double_def slipInputs_def dmul_def dbl_eval)
  have cm: "commission_of_double slipInputs = Fin (5331487902620713 / 2199023255552)"
    unfolding commission_of_double_def pool
    by (simp add: slipInputs_def dmul_def ddiv_def dbl_eval)
  have np: "net_pool_of_double slipInputs = Fin (8247145349366415 / 34359738368)"
    unfolding net_pool_of_double_def pool cm
    by (simp add: dsub_def dbl_eval)
  have w: "p_withdrawalAmount ?v = Fin 4996"
    by (simp add: pd_withdrawalAmount_eq slipInputs_def dmul_def dadd_def dbl_eval)
  have e: "p_effectiveCarryOver ?v = Fin 0"
    by (simp add: pd_effectiveCarryOver_eq initial_state_def dadd_def dbl_eval)
  have l: "p_isLastMonth ?v"
    unfolding pd_isLastMonth_eq w e np r
    by (simp add: dmul_def dadd_def dbl_eval)
  have a: "p_availablePool ?v = Fin (8239740138553343 / 68719476736)"
    unfolding pd_availablePool_eq Let_def w e r cm
    using l by (simp add: slipInputs_def dmul_def dadd_def dsub_def ddiv_def dbl_eval)
  have m: "p_actualWithdrawals ?v = Fin 23"
    unfolding pd_actualWithdrawals_eq a w r
    by (simp add: ddiv_def dbl_eval)
  have cmx: "commission_of slipInputs = Fin (60612 / 25)"
    by (simp add: commission_of_def pool_of_def slipInputs_def)
  have npx: "net_pool_of slipInputs = Fin (6000588 / 25)"
    by (simp add: net_pool_of_def cmx) (simp add: pool_of_def slipInputs_def)
  have s0: "carryOverPool ?s = Fin 0" "loanRepaymentDue ?s = Fin 0"
    by (simp_all add: initial_state_def)
  have pos: "0 < totalMembers slipInputs"
    by (simp add: slipInputs_def)
  have w0: "withdrawal_at slipInputs 0 \<noteq> 0"
    by (simp add: withdrawal_at_def slipInputs_def)
  have x: "p_actualWithdrawals (period_of slipInputs 99 0 ?s) = Fin 24"
    unfolding fin_period(3) [OF r s0 pos w0 npx]
    by (simp add: withdrawal_at_def slipInputs_def)
  from r l a m x show ?thesis
    by simp
qed

text \<open>
  The same input through the loop: the state after the flagged month, and the month
  that follows it.
\<close>

lemma pd_totalWithdrawn_eq:
  "p_totalWithdrawn (period_of_double c u i s) =
     dmul (p_withdrawalAmount (period_of_double c u i s))
       (p_actualWithdrawals (period_of_double c u i s))"
  by (simp add: period_of_double_def Let_def)

lemma pd_remainingPool_eq:
  "p_remainingPool (period_of_double c u i s) =
     dsub (p_availablePool (period_of_double c u i s))
       (p_totalWithdrawn (period_of_double c u i s))"
  by (simp add: period_of_double_def Let_def)

lemma pd_lends_eq:
  "p_lends (period_of_double c u i s) =
     (\<not> p_isLastMonth (period_of_double c u i s)
      \<and> jgt (p_remainingPool (period_of_double c u i s)) (Fin 0))"
  by (simp add: period_of_double_def Let_def)

lemma pd_loanAmount_eq:
  "p_loanAmount (period_of_double c u i s) =
     (if p_lends (period_of_double c u i s)
      then ddiv (dmul (p_remainingPool (period_of_double c u i s)) (Fin u)) (Fin 100)
      else Fin 0)"
  by (simp add: period_of_double_def Let_def)

lemma pd_nextMonthRepayment_eq:
  "p_nextMonthRepayment (period_of_double c u i s) =
     (if p_lends (period_of_double c u i s)
      then dadd (p_loanAmount (period_of_double c u i s))
             (p_interestEarned (period_of_double c u i s))
      else Fin 0)"
  by (simp add: period_of_double_def Let_def)

lemma body_double_remainingMembers:
  "remainingMembers (loop_body_double c u i s) =
     dsub (remainingMembers s) (p_actualWithdrawals (period_of_double c u i s))"
  by (simp add: loop_body_double_def Let_def)

lemma body_double_carryOverPool:
  "carryOverPool (loop_body_double c u i s) =
     dsub (p_remainingPool (period_of_double c u i s)) (p_loanAmount (period_of_double c u i s))"
  by (simp add: loop_body_double_def Let_def)

lemma body_double_loanRepaymentDue:
  "loanRepaymentDue (loop_body_double c u i s) = p_nextMonthRepayment (period_of_double c u i s)"
  by (simp add: loop_body_double_def Let_def)

lemma body_double_sched:
  "sched (loop_body_double c u i s) =
     sched s @ [schedule_entry_of i (period_of_double c u i s)
                  (remainingMembers (loop_body_double c u i s))]"
  by (simp add: loop_body_double_def Let_def)

lemma chit_loop_double_break:
  "int i < totalMembers c \<Longrightarrow> jgt (remainingMembers s) (Fin 0)
   \<Longrightarrow> jeq (remainingMembers (loop_body_double c u i s)) (Fin 0)
   \<Longrightarrow> chit_loop_double c u i s = loop_body_double c u i s"
  by (subst chit_loop_double.simps) (simp add: Let_def)

lemma chit_loop_double_continue:
  "int i < totalMembers c \<Longrightarrow> jgt (remainingMembers s) (Fin 0)
   \<Longrightarrow> \<not> jeq (remainingMembers (loop_body_double c u i s)) (Fin 0)
   \<Longrightarrow> chit_loop_double c u i s = chit_loop_double c u (i + 1) (loop_body_double c u i s)"
  by (subst chit_loop_double.simps) (simp add: Let_def)

lemma slip_first_state:
  "remainingMembers (loop_body_double slipInputs 99 0 (initial_state slipInputs)) = Fin 1
   \<and> carryOverPool (loop_body_double slipInputs 99 0 (initial_state slipInputs)) =
       Fin (343322505773055 / 68719476736)
   \<and> loanRepaymentDue (loop_body_double slipInputs 99 0 (initial_state slipInputs)) = Fin 0"
proof -
  let ?s = "initial_state slipInputs"
  let ?v = "period_of_double slipInputs 99 0 ?s"
  note slip = settlement_slip_in_double_precision
  have r: "remainingMembers ?s = Fin 24" and l: "p_isLastMonth ?v"
    and a: "p_availablePool ?v = Fin (8239740138553343 / 68719476736)"
    and m: "p_actualWithdrawals ?v = Fin 23"
    using slip by simp_all
  have w: "p_withdrawalAmount ?v = Fin 4996"
    by (simp add: pd_withdrawalAmount_eq slipInputs_def dmul_def dadd_def dbl_eval)
  have t: "p_totalWithdrawn ?v = Fin 114908"
    unfolding pd_totalWithdrawn_eq w m by (simp add: dmul_def dbl_eval)
  have p: "p_remainingPool ?v = Fin (343322505773055 / 68719476736)"
    unfolding pd_remainingPool_eq a t by (simp add: dsub_def dbl_eval)
  have n: "\<not> p_lends ?v"
    using l by (simp add: pd_lends_eq)
  have z: "p_loanAmount ?v = Fin 0" "p_nextMonthRepayment ?v = Fin 0"
    using n by (simp_all add: pd_loanAmount_eq pd_nextMonthRepayment_eq)
  have "remainingMembers (loop_body_double slipInputs 99 0 ?s) = Fin 1"
    unfolding body_double_remainingMembers r m by (simp add: dsub_def dbl_eval)
  moreover have "carryOverPool (loop_body_double slipInputs 99 0 ?s) =
      Fin (343322505773055 / 68719476736)"
    unfolding body_double_carryOverPool p z by (simp add: dsub_def dbl_eval)
  moreover have "loanRepaymentDue (loop_body_double slipInputs 99 0 ?s) = Fin 0"
    unfolding body_double_loanRepaymentDue z ..
  ultimately show ?thesis
    by simp
qed

lemma slip_second_period:
  assumes r: "remainingMembers s = Fin 1"
    and c: "carryOverPool s = Fin (343322505773055 / 68719476736)"
    and d: "loanRepaymentDue s = Fin 0"
  shows "p_isLastMonth (period_of_double slipInputs 99 1 s)
   \<and> p_actualWithdrawals (period_of_double slipInputs 99 1 s) = Fin 1"
proof -
  let ?v = "period_of_double slipInputs 99 1 s"
  have pool: "pool_of_double slipInputs = Fin 242448"
    by (simp add: pool_of_double_def slipInputs_def dmul_def dbl_eval)
  have cm: "commission_of_double slipInputs = Fin (5331487902620713 / 2199023255552)"
    unfolding commission_of_double_def pool
    by (simp add: slipInputs_def dmul_def ddiv_def dbl_eval)
  have np: "net_pool_of_double slipInputs = Fin (8247145349366415 / 34359738368)"
    unfolding net_pool_of_double_def pool cm
    by (simp add: dsub_def dbl_eval)
  have w: "p_withdrawalAmount ?v = Fin 8373"
    by (simp add: pd_withdrawalAmount_eq slipInputs_def dmul_def dadd_def dbl_eval)
  have e: "p_effectiveCarryOver ?v = Fin (343322505773055 / 68719476736)"
    unfolding pd_effectiveCarryOver_eq c d by (simp add: dadd_def dbl_eval)
  have l: "p_isLastMonth ?v"
    unfolding pd_isLastMonth_eq w e np r
    by (simp add: dmul_def dadd_def dbl_eval)
  have a: "p_availablePool ?v = Fin 8373"
    unfolding pd_availablePool_eq Let_def w e r cm
    using l by (simp add: slipInputs_def dmul_def dadd_def dsub_def ddiv_def dbl_eval)
  have m: "p_actualWithdrawals ?v = Fin 1"
    unfolding pd_actualWithdrawals_eq a w r
    by (simp add: ddiv_def dbl_eval)
  from l m show ?thesis
    by simp
qed

section \<open>The claims\<close>

text \<open>
  Claim C1. For 20 members contributing 5000 each, a first withdrawal of 80000 rising by
  1000 a month, a monthly commission of 5 percent, loans at 2 percent and a loan
  utilization of 50 percent, the function returns a result with \<open>totalPool = 100000\<close>,
  \<open>commissionPerMonth = 5000\<close> and \<open>netPoolPerMonth = 95000\<close>; the first schedule
  entry has \<open>withdrawalAmount = 80000\<close>, \<open>actualWithdrawals = 1\<close> and
  \<open>remainingPool = 15000\<close>, and the first loan entry has \<open>loanAmount = 7500\<close>,
  \<open>interestEarned = 150\<close> and \<open>repaymentDue = 7650\<close>. The one-time commission is not
  read in this mode, so it is left arbitrary.
\<close>

theorem default_scenario:
  "\<exists>r. calculateChitDetails
          \<lparr> totalMembers = 20, monthlyContribution = 5000, firstWithdrawal = 80000,
            monthlyIncrement = 1000, commissionType = Monthly, commissionRate = 5,
            oneTimeCommission = x, loanInterestRate = 2 \<rparr> 50 = Inr r
     \<and> totalPool r = Fin 100000
     \<and> commissionPerMonth r = Fin 5000
     \<and> netPoolPerMonth r = Fin 95000
     \<and> withdrawalAmount (hd (withdrawalSchedule r)) = Fin 80000
     \<and> actualWithdrawals (hd (withdrawalSchedule r)) = Fin 1
     \<and> remainingPool (hd (withdrawalSchedule r)) = Fin 15000
     \<and> loanAmount (hd (loanDetails r)) = Fin 7500
     \<and> interestEarned (hd (loanDetails r)) = Fin 150
     \<and> repaymentDue (hd (loanDetails r)) = Fin 7650"
proof -
  let ?c = "\<lparr> totalMembers = 20, monthlyContribution = 5000, firstWithdrawal = 80000,
            monthlyIncrement = 1000, commissionType = Monthly, commissionRate = 5,
            oneTimeCommission = x, loanInterestRate = 2 \<rparr>"
  let ?f = "chit_loop ?c 50 0 (initial_state ?c)"
  let ?v = "period_of ?c 50 0 (initial_state ?c)"
  have pos: "0 < totalMembers ?c"
    by simp
  obtain ms where r: "calculateChitDetails ?c 50 = Inr (details_of ?c ?f ms)"
    using returns_details [OF pos] by blast
  have cm: "commission_of ?c = Fin 5000"
    by (simp add: commission_of_def pool_of_def)
  have np: "net_pool_of ?c = Fin 95000"
    by (simp add: net_pool_of_def cm) (simp add: pool_of_def)
  have w: "p_withdrawalAmount ?v = Fin 80000"
    by (simp add: p_withdrawalAmount_eq)
  have e: "p_effectiveCarryOver ?v = Fin 0"
    by (simp add: p_effectiveCarryOver_eq initial_state_def)
  have l: "\<not> p_isLastMonth ?v"
    by (simp add: p_isLastMonth_eq w e np) (simp add: initial_state_def)
  have a: "p_availablePool ?v = Fin 95000"
    by (simp add: p_availablePool_eq Let_def l e np)
  have m: "p_actualWithdrawals ?v = Fin 1"
    by (simp add: p_actualWithdrawals_eq a w) (simp add: initial_state_def floor_eq_iff)
  have rp: "p_remainingPool ?v = Fin 15000"
    by (simp add: p_remainingPool_eq p_totalWithdrawn_eq a w m)
  have ld: "p_lends ?v"
    by (simp add: p_lends_eq l rp)
  have la: "p_loanAmount ?v = Fin 7500"
    by (simp add: p_loanAmount_eq ld rp)
  have ie: "p_interestEarned ?v = Fin 150"
    by (simp add: p_interestEarned_eq ld la)
  have nr: "p_nextMonthRepayment ?v = Fin 7650"
    by (simp add: p_nextMonthRepayment_eq ld la ie)
  obtain ys where s: "sched ?f =
      schedule_entry_of 0 ?v (remainingMembers (loop_body ?c 50 0 (initial_state ?c))) # ys"
    using sched_first [OF pos] by blast
  obtain zs where ls: "loans ?f = loan_entry_of ?c 0 ?v # zs"
    using loans_first [OF pos ld] by blast
  have "totalPool (details_of ?c ?f ms) = Fin 100000"
    by (simp add: details_of_def pool_of_def)
  moreover have "commissionPerMonth (details_of ?c ?f ms) = Fin 5000"
    by (simp add: details_of_def cm floor_eq_iff)
  moreover have "netPoolPerMonth (details_of ?c ?f ms) = Fin 95000"
    by (simp add: details_of_def np)
  moreover have "withdrawalAmount (hd (withdrawalSchedule (details_of ?c ?f ms))) = Fin 80000"
    by (simp add: details_of_def s schedule_entry_of_def w floor_eq_iff)
  moreover have "actualWithdrawals (hd (withdrawalSchedule (details_of ?c ?f ms))) = Fin 1"
    by (simp add: details_of_def s schedule_entry_of_def m floor_eq_iff)
  moreover have "remainingPool (hd (withdrawalSchedule (details_of ?c ?f ms))) = Fin 15000"
    by (simp add: details_of_def s schedule_entry_of_def rp floor_eq_iff)
  moreover have "loanAmount (hd (loanDetails (details_of ?c ?f ms))) = Fin 7500"
    by (simp add: details_of_def ls loan_entry_of_def la floor_eq_iff)
  moreover have "interestEarned (hd (loanDetails (details_of ?c ?f ms))) = Fin 150"
    by (simp add: details_of_def ls loan_entry_of_def ie floor_eq_iff)
  moreover have "repaymentDue (hd (loanDetails (details_of ?c ?f ms))) = Fin 7650"
    by (simp add: details_of_def ls loan_entry_of_def nr floor_eq_iff)
  ultimately show ?thesis
    using r by blast
qed

text \<open>
  Claim C2. When \<open>totalMembers\<close> is zero or negative the function returns, without
  failing, the result whose duration and aggregates are all zero and whose three arrays
  are empty.
\<close>

theorem degenerate_member_count:
  "totalMembers c \<le> 0 \<Longrightarrow>
     (\<exists>r. calculateChitDetails c u = Inr r
        \<and> duration r = 0 \<and> totalPool r = Fin 0 \<and> commissionPerMonth r = Fin 0
        \<and> totalCommission r = Fin 0 \<and> netPoolPerMonth r = Fin 0
        \<and> totalMembersServed r = Fin 0 \<and> finalCarryOver r = Fin 0
        \<and> totalLoanAmount r = Fin 0 \<and> totalInterestEarned r = Fin 0
        \<and> withdrawalSchedule r = [] \<and> loanDetails r = [] \<and> memberReturns r = [])"
  by (simp add: calculateChitDetails_def empty_details_def)

theorem degenerate_member_count_witness:
  "(0::int) \<le> 0 \<and>
     (\<exists>r. calculateChitDetails
             \<lparr> totalMembers = 0, monthlyContribution = 5000, firstWithdrawal = 80000,
               monthlyIncrement = 1000, commissionType = Onetime, commissionRate = 5,
               oneTimeCommission = 10000, loanInterestRate = 2 \<rparr> 50 = Inr r
        \<and> duration r = 0 \<and> totalPool r = Fin 0 \<and> commissionPerMonth r = Fin 0
        \<and> totalCommission r = Fin 0 \<and> netPoolPerMonth r = Fin 0
        \<and> totalMembersServed r = Fin 0 \<and> finalCarryOver r = Fin 0
        \<and> totalLoanAmount r = Fin 0 \<and> totalInterestEarned r = Fin 0
        \<and> withdrawalSchedule r = [] \<and> loanDetails r = [] \<and> memberReturns r = [])"
  using degenerate_member_count
    [of "\<lparr> totalMembers = 0, monthlyContribution = 5000, firstWithdrawal = 80000,
           monthlyIncrement = 1000, commissionType = Onetime, commissionRate = 5,
           oneTimeCommission = 10000, loanInterestRate = 2 \<rparr>" 50]
  by simp




text \<open>
  Claim C4 at an input with \<open>firstWithdrawal = 0\<close>: the first period divides 0 by 0,
  the withdrawal count of its entry is NaN, and so are the sum of the counts and
  \<open>totalMembersServed\<close>; neither \<open>NaN === NaN\<close> nor \<open>NaN <= 20\<close> holds. (Lemma
  \<open>served_is_sum_of_withdrawals\<close> shows the claim for the inputs whose withdrawal
  amounts are never zero.)
\<close>

theorem served_count_NaN_at_zero_first_withdrawal:
  "\<not> isl (calculateChitDetails
            \<lparr> totalMembers = 20, monthlyContribution = 5000, firstWithdrawal = 0,
              monthlyIncrement = 1000, commissionType = Monthly, commissionRate = 5,
              oneTimeCommission = 10000, loanInterestRate = 2 \<rparr> 50)
   \<and> withdrawals_sum (withdrawalSchedule (projr (calculateChitDetails
            \<lparr> totalMembers = 20, monthlyContribution = 5000, firstWithdrawal = 0,
              monthlyIncrement = 1000, commissionType = Monthly, commissionRate = 5,
              oneTimeCommission = 10000, loanInterestRate = 2 \<rparr> 50))) = NaN
   \<and> totalMembersServed (projr (calculateChitDetails
            \<lparr> totalMembers = 20, monthlyContribution = 5000, firstWithdrawal = 0,
              monthlyIncrement = 1000, commissionType = Monthly, commissionRate = 5,
              oneTimeCommission = 10000, loanInterestRate = 2 \<rparr> 50)) = NaN
   \<and> \<not> jeq NaN NaN \<and> \<not> jle NaN (Fin 20)"
proof -
  let ?c = "\<lparr> totalMembers = 20, monthlyContribution = 5000, firstWithdrawal = 0,
              monthlyIncrement = 1000, commissionType = Monthly, commissionRate = 5,
              oneTimeCommission = 10000, loanInterestRate = 2 \<rparr>"
  let ?s = "initial_state ?c"
  let ?v = "period_of ?c 50 0 ?s"
  have pos: "0 < totalMembers ?c"
    by simp
  have np: "net_pool_of ?c = Fin 95000"
    by (simp add: net_pool_of_def commission_of_def pool_of_def)
  have w: "p_withdrawalAmount ?v = Fin 0"
    by (simp add: p_withdrawalAmount_eq)
  have e: "p_effectiveCarryOver ?v = Fin 0"
    by (simp add: p_effectiveCarryOver_eq initial_state_def)
  have l: "p_isLastMonth ?v"
    by (simp add: p_isLastMonth_eq w e np) (simp add: initial_state_def)
  have a: "p_availablePool ?v = Fin 0"
    by (simp add: p_availablePool_eq Let_def l e w) (simp add: initial_state_def)
  have m: "p_actualWithdrawals ?v = NaN"
    by (simp add: p_actualWithdrawals_eq a w)
  have rm: "remainingMembers (loop_body ?c 50 0 ?s) = NaN"
    by (simp add: body_remainingMembers m)
  then have "run ?c 50 = loop_body ?c 50 0 ?s"
    using run_stop_first [OF pos, of 50] by simp
  then have s: "sched (run ?c 50) = [schedule_entry_of 0 ?v NaN]"
    by (simp add: body_sched rm) (simp add: initial_state_def)
  show ?thesis
    using result_fields(1) [OF pos, of 50]
    unfolding result_fields(2-) [OF pos] s
    by (simp add: schedule_entry_of_def m withdrawals_sum_def jeq_def jle_def)
qed

text \<open>
  Claim C5 at an input where the program breaks it. With 24 members, a contribution of
  10102, a first withdrawal of 4996, an increment of 3377 and a monthly commission of
  1 percent, the first month is flagged \<open>isLastMonth\<close>, but the pool recomputed in
  double precision is 119903.99999999999 instead of 119904: 23 of the 24 members are
  paid, one member remains, and a second flagged entry follows. The flagged first entry
  is not the last entry, its \<open>actualWithdrawals\<close> is not the number of members remaining
  at the start of its period, and its \<open>remainingMembersAfter\<close> is not 0.
\<close>

theorem settlement_month_leaves_a_member_unpaid:
  "length (sched (run_double slipInputs 99)) = 2
   \<and> isLastMonth (sched (run_double slipInputs 99) ! 0)
   \<and> actualWithdrawals (sched (run_double slipInputs 99) ! 0) = Fin 23
   \<and> remainingMembersAfter (sched (run_double slipInputs 99) ! 0) = Fin 1
   \<and> isLastMonth (sched (run_double slipInputs 99) ! 1)
   \<and> actualWithdrawals (sched (run_double slipInputs 99) ! 1) = Fin 1
   \<and> remainingMembersAfter (sched (run_double slipInputs 99) ! 1) = Fin 0"
proof -
  let ?s0 = "initial_state slipInputs"
  let ?s1 = "loop_body_double slipInputs 99 0 ?s0"
  let ?s2 = "loop_body_double slipInputs 99 1 ?s1"
  let ?v0 = "period_of_double slipInputs 99 0 ?s0"
  let ?v1 = "period_of_double slipInputs 99 1 ?s1"
  have n: "int 0 < totalMembers slipInputs" "int 1 < totalMembers slipInputs"
    by (simp_all add: slipInputs_def)
  have r0: "remainingMembers ?s0 = Fin 24" and e0: "sched ?s0 = []"
    by (simp_all add: initial_state_def slipInputs_def)
  have v0: "p_isLastMonth ?v0" "p_actualWithdrawals ?v0 = Fin 23"
    using settlement_slip_in_double_precision by simp_all
  have s1: "remainingMembers ?s1 = Fin 1"
    "carryOverPool ?s1 = Fin (343322505773055 / 68719476736)"
    "loanRepaymentDue ?s1 = Fin 0"
    using slip_first_state by simp_all
  have v1: "p_isLastMonth ?v1" "p_actualWithdrawals ?v1 = Fin 1"
    using slip_second_period [OF s1] by simp_all
  have r2: "remainingMembers ?s2 = Fin 0"
    unfolding body_double_remainingMembers [of _ _ 1] s1 v1 by (simp add: dsub_def dbl_eval)
  have "run_double slipInputs 99 = chit_loop_double slipInputs 99 1 ?s1"
    unfolding run_double_def
    using chit_loop_double_continue [of 0 slipInputs ?s0 99] n(1)
    by (simp add: r0 s1 jgt_def jeq_def)
  also have "\<dots> = ?s2"
  proof (rule chit_loop_double_break [OF n(2)])
    show "jgt (remainingMembers ?s1) (Fin 0)"
      unfolding s1 by (simp add: jgt_def)
    show "jeq (remainingMembers ?s2) (Fin 0)"
      unfolding r2 by (simp add: jeq_def)
  qed
  finally have run: "run_double slipInputs 99 = ?s2" .
  have sch: "sched (run_double slipInputs 99) =
      [schedule_entry_of 0 ?v0 (Fin 1), schedule_entry_of 1 ?v1 (Fin 0)]"
    unfolding run body_double_sched [of _ _ 1] r2
    unfolding body_double_sched [of _ _ 0] s1 e0
    by (simp only: append.simps)
  have v1': "p_isLastMonth (period_of_double slipInputs 99 (Suc 0) ?s1)"
    "p_actualWithdrawals (period_of_double slipInputs 99 (Suc 0) ?s1) = Fin 1"
    using v1 by simp_all
  show ?thesis
    unfolding sch by (simp add: schedule_entry_of_def v0 v1')
qed






text \<open>
  Claim C8, as amended. For every rate \<open>r\<close> with \<open>-0.98 \<le> r \<le> 10\<close>, the solver with its
  default arguments returns a value on the cash flows \<open>[-100, 0, 0, 100 * (1 + r)^3]\<close>,
  and the value is within \<open>1e-7\<close> of \<open>r\<close>. Whatever Newton-Raphson does, a rate it
  returns has a net present value below the tolerance, which forces it to be near \<open>r\<close>;
  and when it returns nothing, bisection keeps \<open>r\<close> between \<open>low\<close> and \<open>high\<close> and halves
  the bracket until the midpoint is accepted, well within 100 iterations.
\<close>

theorem irr_round_trip:
  assumes "- (49 / 50) \<le> r" and "r \<le> 10"
  shows "\<exists>x. calculateIRR_default [Fin (- 100), Fin 0, Fin 0, Fin (100 * (1 + r) ^ 3)] = Some (Fin x)
           \<and> \<bar>x - r\<bar> < 1 / 10000000"
proof -
  let ?cf = "[Fin (- 100), Fin 0, Fin 0, Fin (100 * (1 + r) ^ 3)]"
  define T :: rat where "T = 944473296573929 / 9444732965739290427392"
  define L :: rat where "L = - (4458563631096791 / 4503599627370496)"
  have dt: "defaultTolerance = Fin T" and lb: "lowerBound = Fin L"
    unfolding T_def L_def by (rule defaultTolerance_eq, rule lowerBound_eq)
  have T1: "T \<le> 1 / 10000000" and T2: "7 / 100000000 < T"
    unfolding T_def by simp_all
  have L1: "- (99 / 100) \<le> L" and L2: "L \<le> - (49 / 50)"
    unfolding L_def by simp_all
  from assms(1) have R: "1 / 100 \<le> 1 + r"
    by (simp add: field_simps)
  then have R0: "0 < 1 + r"
    by (simp add: field_simps)
  have near: "\<exists>x. v = Fin x \<and> \<bar>x - r\<bar> < 1 / 10000000"
    if v: "rate_ok v" "jlt (jabs (npv_at ?cf v)) (Fin T)" for v
  proof (cases v)
    case (Fin x)
    with v(1) have x: "- (99 / 100) \<le> x" "x \<le> 10"
      by simp_all
    then have u: "0 < 1 + x" "1 + x \<le> 11"
      by (simp_all add: field_simps)
    then have nz: "1 + x \<noteq> 0"
      by (metis less_irrefl)
    from v(2) have "\<bar>100 * (1 + r) ^ 3 / (1 + x) ^ 3 - 100\<bar> < T"
      unfolding Fin round_trip_npv [OF nz] by (simp only: jabs.simps jlt.simps)
    with T1 have "\<bar>100 * (1 + r) ^ 3 / (1 + x) ^ 3 - 100\<bar> < 1 / 10000000"
      by (rule less_le_trans [rotated])
    then have "\<bar>(1 + x) - (1 + r)\<bar> < 1 / 10000000"
      by (rule close_to_root [OF u R0])
    then show ?thesis
      using Fin by simp
  next
    case NaN
    with v(2) show ?thesis
      by (simp add: round_trip_npv_NaN)
  qed (use v(1) in simp_all)
  show ?thesis
  proof (cases "newton ?cf (Fin T) 100 initialRate")
    case (Some v)
    have "rate_ok v \<and> jlt (jabs (npv_at ?cf v)) (Fin T)"
      by (rule newton_sound [OF _ Some]) (simp add: initialRate_eq)
    then obtain x where "v = Fin x" "\<bar>x - r\<bar> < 1 / 10000000"
      using near by blast
    with Some show ?thesis
      by (simp add: calculateIRR_default_def calculateIRR_def dt)
  next
    case None
    have "1 + L \<le> 1 + r"
      using L2 assms(1) by simp
    moreover have "10 - L \<le> 2 / 1000000000000 * 2 ^ 99"
      unfolding L_def by simp
    ultimately have "\<exists>v. bisection ?cf (Fin T) (Suc 99) (Fin L) (Fin 10) = Some v"
      using assms(2) L1 by (intro bisection_converges [OF R T2]) simp_all
    then obtain v where b: "bisection ?cf (Fin T) 100 (Fin L) (Fin 10) = Some v"
      by (auto simp del: bisection.simps)
    have "\<exists>x. v = Fin x \<and> - (99 / 100) \<le> x \<and> x \<le> 10 \<and> jlt (jabs (npv_at ?cf v)) (Fin T)"
      using L1 by (intro bisection_sound [OF _ _ _ b]) (simp_all add: L_def)
    then have "rate_ok v \<and> jlt (jabs (npv_at ?cf v)) (Fin T)"
      by auto
    then obtain x where "v = Fin x" "\<bar>x - r\<bar> < 1 / 10000000"
      using near by blast
    with None b show ?thesis
      by (simp add: calculateIRR_default_def calculateIRR_def dt lb)
  qed
qed

theorem irr_round_trip_witness:
  "- (49 / 50) \<le> (1 / 2 :: rat) \<and> (1 / 2 :: rat) \<le> 10
   \<and> (\<exists>x. calculateIRR_default [Fin (- 100), Fin 0, Fin 0, Fin (100 * (1 + 1 / 2) ^ 3)]
            = Some (Fin x)
          \<and> \<bar>x - 1 / 2\<bar> < 1 / 10000000)"
  using irr_round_trip [of "1 / 2"] by simp

text \<open>
  Claim C8 as stated fails at the lower end of the bracket. For \<open>r = -0.99\<close> the cash
  flows are \<open>[-100, 0, 0, 0.0001]\<close>; the bound \<open>low\<close> of the program is the double
  \<open>-0.99\<close>, which lies above \<open>-99/100\<close>, so the net present value is negative on the
  whole bracket: Newton-Raphson is clamped to \<open>-0.5\<close> in every iteration, bisection
  moves \<open>low\<close> up in every iteration, and the solver returns no value. The same holds
  when the last cash flow is the double \<open>0.0001\<close>.
\<close>

theorem lower_end_counterexample:
  "calculateIRR_default [Fin (- 100), Fin 0, Fin 0, Fin (100 * (1 + - (99 / 100)) ^ 3)] = None
   \<and> calculateIRR_default [Fin (- 100), Fin 0, Fin 0, Fin (dbl (1 / 10000))] = None"
proof -
  have "calculateIRR_default [Fin (- 100), Fin 0, Fin 0, Fin (1 / 10000)] = None"
    by (rule root_below_gives_no_rate [OF _ _ _ newton_first_step])
      (simp_all add: power_divide)
  moreover have "calculateIRR_default
      [Fin (- 100), Fin 0, Fin 0, Fin (7378697629483821 / 73786976294838206464)] = None"
    by (rule root_below_gives_no_rate [OF _ _ _ newton_first_step_double])
      (simp_all add: power_divide)
  ultimately show ?thesis
    by (simp add: dbl_ten_thousandth power_divide)
qed

text \<open>
  Claim C9, as amended. For a cash-flow sequence that is not empty, whose entries are all
  negative or all positive, and whose first entry is not smaller in magnitude than the
  tolerance, the solver returns no value, for every number of iterations.
\<close>

theorem no_sign_change_gives_no_rate:
  assumes "cashFlows \<noteq> []"
    and "(\<forall>x\<in>set cashFlows. jlt x (Fin 0)) \<or> (\<forall>x\<in>set cashFlows. jgt x (Fin 0))"
    and "\<not> jlt (jabs (hd cashFlows)) tolerance"
  shows "calculateIRR cashFlows maxIterations tolerance = None"
  using assms(2)
proof
  assume "\<forall>x\<in>set cashFlows. jlt x (Fin 0)"
  then show ?thesis
    using outflow_npv_not_small [OF _ assms(1,3)] by (intro calculateIRR_None) blast
next
  assume pos: "\<forall>x\<in>set cashFlows. jgt x (Fin 0)"
  let ?cf = "map jneg cashFlows"
  have neg: "\<forall>x\<in>set ?cf. jlt x (Fin 0)"
    using pos by (simp add: jlt_jneg)
  have ne: "?cf \<noteq> []"
    using assms(1) by simp
  have first: "\<not> jlt (jabs (hd ?cf)) tolerance"
    using assms(1,3) by (simp add: hd_map)
  have "\<not> jlt (jabs (npv_at cashFlows rate)) tolerance" if "rate_ok rate" for rate
  proof -
    have "npv_at ?cf rate = jneg (npv_at cashFlows rate)"
      by (rule npv_at_jneg)
    then have "jabs (npv_at cashFlows rate) = jabs (npv_at ?cf rate)"
      by simp
    with outflow_npv_not_small [OF neg ne first that] show ?thesis
      by simp
  qed
  then show ?thesis
    by (rule calculateIRR_None)
qed

theorem no_sign_change_gives_no_rate_witness:
  "[Fin (- 5000), Fin (- 5000), Fin (- 3292)] \<noteq> []
   \<and> ((\<forall>x\<in>set [Fin (- 5000), Fin (- 5000), Fin (- 3292)]. jlt x (Fin 0))
      \<or> (\<forall>x\<in>set [Fin (- 5000), Fin (- 5000), Fin (- 3292)]. jgt x (Fin 0)))
   \<and> \<not> jlt (jabs (hd [Fin (- 5000), Fin (- 5000), Fin (- 3292)])) defaultTolerance
   \<and> calculateIRR_default [Fin (- 5000), Fin (- 5000), Fin (- 3292)] = None"
  using no_sign_change_gives_no_rate
    [of "[Fin (- 5000), Fin (- 5000), Fin (- 3292)]" defaultTolerance 100]
  by (simp add: calculateIRR_default_def defaultTolerance_eq)

text \<open>
  Claim C9 as stated fails: the single outflow \<open>-1e-8\<close> has a net present value below
  the tolerance at the initial guess, and the solver returns that guess, 0.01.
\<close>

theorem tiny_outflow_counterexample:
  "jlt (Fin (- (1 / 100000000))) (Fin 0)
   \<and> calculateIRR_default [Fin (- (1 / 100000000))] = Some (Fin (dbl (1 / 100)))"
  unfolding calculateIRR_default_def calculateIRR_def defaultTolerance_eq
  by (simp add: initialRate_def npv_at_def numeral_eq_Suc Let_def)

text \<open>
  Claim C10 at the input it names: with \<open>firstWithdrawal = 0\<close> and
  \<open>monthlyIncrement = 0\<close> the function returns without failing, but the division
  \<open>availablePool / withdrawalAmount\<close> is \<open>0 / 0\<close>, and NaN reaches the schedule entry and
  the aggregates \<open>totalMembersServed\<close> and \<open>finalCarryOver\<close>.
\<close>

theorem zero_withdrawal_amount_gives_NaN:
  "\<not> isl (calculateChitDetails
            \<lparr> totalMembers = 20, monthlyContribution = 5000, firstWithdrawal = 0,
              monthlyIncrement = 0, commissionType = Monthly, commissionRate = 5,
              oneTimeCommission = 10000, loanInterestRate = 2 \<rparr> 50)
   \<and> map actualWithdrawals (withdrawalSchedule (projr (calculateChitDetails
            \<lparr> totalMembers = 20, monthlyContribution = 5000, firstWithdrawal = 0,
              monthlyIncrement = 0, commissionType = Monthly, commissionRate = 5,
              oneTimeCommission = 10000, loanInterestRate = 2 \<rparr> 50))) = [NaN]
   \<and> map remainingPool (withdrawalSchedule (projr (calculateChitDetails
            \<lparr> totalMembers = 20, monthlyContribution = 5000, firstWithdrawal = 0,
              monthlyIncrement = 0, commissionType = Monthly, commissionRate = 5,
              oneTimeCommission = 10000, loanInterestRate = 2 \<rparr> 50))) = [NaN]
   \<and> totalMembersServed (projr (calculateChitDetails
            \<lparr> totalMembers = 20, monthlyContribution = 5000, firstWithdrawal = 0,
              monthlyIncrement = 0, commissionType = Monthly, commissionRate = 5,
              oneTimeCommission = 10000, loanInterestRate = 2 \<rparr> 50)) = NaN
   \<and> finalCarryOver (projr (calculateChitDetails
            \<lparr> totalMembers = 20, monthlyContribution = 5000, firstWithdrawal = 0,
              monthlyIncrement = 0, commissionType = Monthly, commissionRate = 5,
              oneTimeCommission = 10000, loanInterestRate = 2 \<rparr> 50)) = NaN"
proof -
  let ?c = "\<lparr> totalMembers = 20, monthlyContribution = 5000, firstWithdrawal = 0,
              monthlyIncrement = 0, commissionType = Monthly, commissionRate = 5,
              oneTimeCommission = 10000, loanInterestRate = 2 \<rparr>"
  let ?s = "initial_state ?c"
  let ?v = "period_of ?c 50 0 ?s"
  have pos: "0 < totalMembers ?c"
    by simp
  have np: "net_pool_of ?c = Fin 95000"
    by (simp add: net_pool_of_def commission_of_def pool_of_def)
  have w: "p_withdrawalAmount ?v = Fin 0"
    by (simp add: p_withdrawalAmount_eq)
  have e: "p_effectiveCarryOver ?v = Fin 0"
    by (simp add: p_effectiveCarryOver_eq initial_state_def)
  have l: "p_isLastMonth ?v"
    by (simp add: p_isLastMonth_eq w e np) (simp add: initial_state_def)
  have a: "p_availablePool ?v = Fin 0"
    by (simp add: p_availablePool_eq Let_def l e w) (simp add: initial_state_def)
  have m: "p_actualWithdrawals ?v = NaN"
    by (simp add: p_actualWithdrawals_eq a w)
  have rp: "p_remainingPool ?v = NaN"
    by (simp add: p_remainingPool_eq p_totalWithdrawn_eq m)
  have rm: "remainingMembers (loop_body ?c 50 0 ?s) = NaN"
    by (simp add: body_remainingMembers m)
  then have "run ?c 50 = loop_body ?c 50 0 ?s"
    using run_stop_first [OF pos, of 50] by simp
  then have s: "sched (run ?c 50) = [schedule_entry_of 0 ?v NaN]"
    by (simp add: body_sched rm) (simp add: initial_state_def)
  show ?thesis
    using result_fields(1) [OF pos, of 50]
    unfolding result_fields(2-) [OF pos] s
    by (simp add: schedule_entry_of_def m rp)
qed

end
